theory Spec2Isabelle
  imports Main "HOL-Library.Word"
begin

unbundle bit_operations_syntax

section \<open>Bytes, errors and little-endian integers\<close>

type_synonym byte = "8 word"
type_synonym Buffer = "byte list"

text \<open>
  Every \<^verbatim>\<open>throw\<close> of the source is a value of this type. JavaScript numbers are
  modelled as unbounded integers (\<^typ>\<open>int\<close>); the range checks that Node and the
  cursor perform when a number is written are branches returning \<open>RangeError\<close>.
\<close>

datatype error =
    OutOfBounds
  | RangeError
  | TypeError
  | BufferTooSmall
  | UnexpectedData
  | MerkleNoTxes
  | IllegalMutation

fun ebind :: "error + 'a \<Rightarrow> ('a \<Rightarrow> error + 'b) \<Rightarrow> error + 'b" where
  "ebind (Inl e) f = Inl e"
| "ebind (Inr x) f = f x"

fun le_bytes :: "nat \<Rightarrow> int \<Rightarrow> Buffer" where
  "le_bytes 0 v = []"
| "le_bytes (Suc n) v = word_of_int (v mod 256) # le_bytes n (v div 256)"

fun le_int :: "Buffer \<Rightarrow> int" where
  "le_int [] = 0"
| "le_int (b # bs) = uint b + 256 * le_int bs"

text \<open>\<^verbatim>\<open>Buffer.allocUnsafe(n)\<close>: \<open>n\<close> bytes of unspecified content, taken as zero here;
  \<open>Buffer.alloc(n, 0)\<close> is the same list. \<^verbatim>\<open>buf.slice(a, b)\<close> for \<open>a \<le> b \<le> length\<close>.\<close>

definition allocUnsafe :: "nat \<Rightarrow> Buffer" where
  "allocUnsafe n = replicate n 0"

definition slice :: "Buffer \<Rightarrow> nat \<Rightarrow> nat \<Rightarrow> Buffer" where
  "slice b from to = take (to - from) (drop from b)"

text \<open>JavaScript's 32-bit operators on integers: \<^verbatim>\<open>a & b\<close> and \<^verbatim>\<open>a >> n\<close> first take
  their operands to signed 32 bits.\<close>

definition toInt32 :: "int \<Rightarrow> int" where
  "toInt32 x = (x + 2 ^ 31) mod 2 ^ 32 - 2 ^ 31"

definition js_and :: "int \<Rightarrow> int \<Rightarrow> int" where
  "js_and a b = toInt32 a AND toInt32 b"

definition js_sar :: "int \<Rightarrow> nat \<Rightarrow> int" where
  "js_sar a n = drop_bit n (toInt32 a)"

section \<open>The byte cursor (bufferutils, varuint)\<close>

text \<open>
  Modelled from the spec: the module \<^verbatim>\<open>./bufferutils\<close> (BufferReader, BufferWriter,
  reverseBuffer) and the CompactSize codec it calls are imported by the source but are
  not among the source files. The spec (4.1, 6) gives their contract: a fixed buffer
  and a mutable offset; signed/unsigned 32-bit and unsigned 64-bit little-endian
  integers; fixed slices; CompactSize integers, written minimally and read in any valid
  encoding; length-prefixed slices; every access beyond the buffer fails.
\<close>

record cursor =
  buffer :: Buffer
  offset :: nat

definition readSlice :: "nat \<Rightarrow> cursor \<Rightarrow> error + (Buffer \<times> cursor)" where
  "readSlice n r =
     (if length (buffer r) < offset r + n then Inl OutOfBounds
      else Inr (slice (buffer r) (offset r) (offset r + n), r\<lparr>offset := offset r + n\<rparr>))"

definition readUInt8 :: "cursor \<Rightarrow> error + (int \<times> cursor)" where
  "readUInt8 r = ebind (readSlice 1 r) (\<lambda>(s, r'). Inr (le_int s, r'))"

definition readUInt16 :: "cursor \<Rightarrow> error + (int \<times> cursor)" where
  "readUInt16 r = ebind (readSlice 2 r) (\<lambda>(s, r'). Inr (le_int s, r'))"

definition readUInt32 :: "cursor \<Rightarrow> error + (int \<times> cursor)" where
  "readUInt32 r = ebind (readSlice 4 r) (\<lambda>(s, r'). Inr (le_int s, r'))"

definition readInt32 :: "cursor \<Rightarrow> error + (int \<times> cursor)" where
  "readInt32 r = ebind (readSlice 4 r)
     (\<lambda>(s, r'). Inr (if 2 ^ 31 \<le> le_int s then le_int s - 2 ^ 32 else le_int s, r'))"

definition readUInt64 :: "cursor \<Rightarrow> error + (int \<times> cursor)" where
  "readUInt64 r = ebind (readSlice 8 r) (\<lambda>(s, r'). Inr (le_int s, r'))"

definition readVarInt :: "cursor \<Rightarrow> error + (nat \<times> cursor)" where
  "readVarInt r = ebind (readUInt8 r) (\<lambda>(first, r1).
     if first < 0xfd then Inr (nat first, r1)
     else if first = 0xfd then ebind (readUInt16 r1) (\<lambda>(v, r2). Inr (nat v, r2))
     else if first = 0xfe then ebind (readUInt32 r1) (\<lambda>(v, r2). Inr (nat v, r2))
     else ebind (readUInt64 r1) (\<lambda>(v, r2). Inr (nat v, r2)))"

definition readVarSlice :: "cursor \<Rightarrow> error + (Buffer \<times> cursor)" where
  "readVarSlice r = ebind (readVarInt r) (\<lambda>(n, r1). readSlice n r1)"

definition writeSlice :: "Buffer \<Rightarrow> cursor \<Rightarrow> error + cursor" where
  "writeSlice s w =
     (if length (buffer w) < offset w + length s then Inl OutOfBounds
      else Inr \<lparr>buffer = take (offset w) (buffer w) @ s @ drop (offset w + length s) (buffer w),
                offset = offset w + length s\<rparr>)"

text \<open>\<^verbatim>\<open>writeSlice\<close> of a value that may be \<^verbatim>\<open>undefined\<close>: reading its length throws.\<close>

definition writeSliceOpt :: "Buffer option \<Rightarrow> cursor \<Rightarrow> error + cursor" where
  "writeSliceOpt s w = (case s of None \<Rightarrow> Inl TypeError | Some x \<Rightarrow> writeSlice x w)"

definition writeInt32 :: "int \<Rightarrow> cursor \<Rightarrow> error + cursor" where
  "writeInt32 i w =
     (if i < - (2 ^ 31) \<or> 2 ^ 31 - 1 < i then Inl RangeError else writeSlice (le_bytes 4 i) w)"

definition writeUInt32 :: "int \<Rightarrow> cursor \<Rightarrow> error + cursor" where
  "writeUInt32 i w =
     (if i < 0 \<or> 0xffffffff < i then Inl RangeError else writeSlice (le_bytes 4 i) w)"

definition writeUInt64 :: "int \<Rightarrow> cursor \<Rightarrow> error + cursor" where
  "writeUInt64 i w =
     (if i < 0 \<or> 0xffffffffffffffff < i then Inl RangeError else writeSlice (le_bytes 8 i) w)"

definition encodingLength :: "nat \<Rightarrow> nat" where
  "encodingLength n = (if n < 0xfd then 1 else if n \<le> 0xffff then 3 else if n \<le> 0xffffffff then 5 else 9)"

definition encode :: "nat \<Rightarrow> Buffer" where
  "encode n =
     (if n < 0xfd then le_bytes 1 (int n)
      else if n \<le> 0xffff then 0xfd # le_bytes 2 (int n)
      else if n \<le> 0xffffffff then 0xfe # le_bytes 4 (int n)
      else 0xff # le_bytes 8 (int n))"

definition writeVarInt :: "nat \<Rightarrow> cursor \<Rightarrow> error + cursor" where
  "writeVarInt n w = (if 0xffffffffffffffff < n then Inl RangeError else writeSlice (encode n) w)"

definition writeVarSlice :: "Buffer \<Rightarrow> cursor \<Rightarrow> error + cursor" where
  "writeVarSlice s w = ebind (writeVarInt (length s) w) (writeSlice s)"

definition reverseBuffer :: "Buffer \<Rightarrow> Buffer" where
  "reverseBuffer b = rev b"

section \<open>Transaction\<close>

record Input =
  hash :: Buffer
  index :: int
  script :: Buffer
  sequence :: int

text \<open>An element of \<^verbatim>\<open>outs\<close> is either an \<^verbatim>\<open>Output {script, value}\<close> or an object
  without \<^verbatim>\<open>value\<close>: the \<^verbatim>\<open>BLANK_OUTPUT {script, valueBuffer}\<close>, or what \<^verbatim>\<open>clone\<close>
  makes of it, \<^verbatim>\<open>{script, value: undefined}\<close>, which has no \<^verbatim>\<open>valueBuffer\<close> either.\<close>

datatype Output =
    Output (out_script: Buffer) (out_value: int)
  | Blank (out_script: Buffer) (valueBuffer: "Buffer option")

record Transaction =
  version :: int
  time :: int
  locktime :: int
  ins :: "Input list"
  outs :: "Output list"

definition varSliceSize :: "Buffer \<Rightarrow> nat" where
  "varSliceSize someScript = encodingLength (length someScript) + length someScript"

definition EMPTY_SCRIPT :: Buffer where
  "EMPTY_SCRIPT = []"

definition ZERO :: Buffer where
  "ZERO = replicate 32 0"




fun isOutput :: "Output \<Rightarrow> bool" where
  "isOutput (Output s v) = True"
| "isOutput (Blank s vb) = False"

definition SIGHASH_ALL :: int where "SIGHASH_ALL = 0x01"
definition SIGHASH_NONE :: int where "SIGHASH_NONE = 0x02"
definition SIGHASH_SINGLE :: int where "SIGHASH_SINGLE = 0x03"
definition SIGHASH_ANYONECANPAY :: int where "SIGHASH_ANYONECANPAY = 0x80"

definition Transaction_byteLength :: "Transaction \<Rightarrow> nat" where
  "Transaction_byteLength tx =
     (if version tx \<ge> 2 then 16 else 12) +
     encodingLength (length (ins tx)) +
     encodingLength (length (outs tx)) +
     foldl (\<lambda>sum input. sum + 40 + varSliceSize (script input)) 0 (ins tx) +
     foldl (\<lambda>sum output. sum + 8 + varSliceSize (out_script output)) 0 (outs tx)"

fun forEach :: "('a \<Rightarrow> cursor \<Rightarrow> error + cursor) \<Rightarrow> 'a list \<Rightarrow> cursor \<Rightarrow> error + cursor" where
  "forEach f [] w = Inr w"
| "forEach f (x # xs) w = ebind (f x w) (forEach f xs)"

definition writeInput :: "Input \<Rightarrow> cursor \<Rightarrow> error + cursor" where
  "writeInput txIn w =
     ebind (writeSlice (hash txIn) w) (\<lambda>w.
     ebind (writeUInt32 (index txIn) w) (\<lambda>w.
     ebind (writeVarSlice (script txIn) w) (\<lambda>w.
     writeUInt32 (sequence txIn) w)))"

definition writeOutput :: "Output \<Rightarrow> cursor \<Rightarrow> error + cursor" where
  "writeOutput txOut w =
     ebind (if isOutput txOut then writeUInt64 (out_value txOut) w
            else writeSliceOpt (valueBuffer txOut) w) (\<lambda>w.
     writeVarSlice (out_script txOut) w)"

text \<open>The writes of \<^verbatim>\<open>__toBuffer\<close> on its \<^verbatim>\<open>bufferWriter\<close>, in order.\<close>

definition writeTransaction :: "Transaction \<Rightarrow> cursor \<Rightarrow> error + cursor" where
  "writeTransaction tx w =
     ebind (writeInt32 (version tx) w) (\<lambda>w.
     ebind (if version tx \<ge> 2 then writeUInt64 (time tx) w else writeUInt32 (time tx) w) (\<lambda>w.
     ebind (writeVarInt (length (ins tx)) w) (\<lambda>w.
     ebind (forEach writeInput (ins tx) w) (\<lambda>w.
     ebind (writeVarInt (length (outs tx)) w) (\<lambda>w.
     ebind (forEach writeOutput (outs tx) w) (\<lambda>w.
     writeUInt32 (locktime tx) w))))))"

text \<open>
  \<^verbatim>\<open>__toBuffer(buffer?, initialOffset?)\<close>. The caller's buffer is written in place, so
  the result is a pair: the value returned and the final content of the buffer object.
\<close>

definition Transaction_toBuffer :: "Transaction \<Rightarrow> Buffer option \<Rightarrow> nat option \<Rightarrow> error + (Buffer \<times> Buffer)" where
  "Transaction_toBuffer tx buf initialOffset =
     (let b = (case buf of None \<Rightarrow> allocUnsafe (Transaction_byteLength tx) | Some b \<Rightarrow> b);
          bufferWriter = \<lparr>buffer = b, offset = (case initialOffset of None \<Rightarrow> 0 | Some i \<Rightarrow> i)\<rparr>
      in ebind (writeTransaction tx bufferWriter) (\<lambda>w.
           Inr (case initialOffset of
                  Some i \<Rightarrow> slice (buffer w) i (offset w)
                | None \<Rightarrow> buffer w,
                buffer w)))"

definition serialize :: "Transaction \<Rightarrow> error + Buffer" where
  "serialize tx = ebind (Transaction_toBuffer tx None None) (\<lambda>(res, b). Inr res)"

fun readInputs :: "nat \<Rightarrow> cursor \<Rightarrow> error + (Input list \<times> cursor)" where
  "readInputs 0 r = Inr ([], r)"
| "readInputs (Suc n) r =
     ebind (readSlice 32 r) (\<lambda>(h, r).
     ebind (readUInt32 r) (\<lambda>(i, r).
     ebind (readVarSlice r) (\<lambda>(s, r).
     ebind (readUInt32 r) (\<lambda>(q, r).
     ebind (readInputs n r) (\<lambda>(rest, r).
     Inr (\<lparr>hash = h, index = i, script = s, sequence = q\<rparr> # rest, r))))))"

fun readOutputs :: "nat \<Rightarrow> cursor \<Rightarrow> error + (Output list \<times> cursor)" where
  "readOutputs 0 r = Inr ([], r)"
| "readOutputs (Suc n) r =
     ebind (readUInt64 r) (\<lambda>(v, r).
     ebind (readVarSlice r) (\<lambda>(s, r).
     ebind (readOutputs n r) (\<lambda>(rest, r).
     Inr (Output s v # rest, r))))"

text \<open>The reads of \<^verbatim>\<open>Transaction.fromBuffer\<close> on its \<^verbatim>\<open>bufferReader\<close>, up to the locktime.\<close>

definition readTransaction :: "cursor \<Rightarrow> error + (Transaction \<times> cursor)" where
  "readTransaction r =
     ebind (readInt32 r) (\<lambda>(v, r).
     ebind (if v \<ge> 2 then readUInt64 r else readUInt32 r) (\<lambda>(t, r).
     ebind (readVarInt r) (\<lambda>(vinLen, r).
     ebind (readInputs vinLen r) (\<lambda>(is, r).
     ebind (readVarInt r) (\<lambda>(voutLen, r).
     ebind (readOutputs voutLen r) (\<lambda>(os, r).
     ebind (readUInt32 r) (\<lambda>(l, r).
     Inr (\<lparr>version = v, time = t, locktime = l, ins = is, outs = os\<rparr>, r))))))))"

definition Transaction_fromBuffer :: "Buffer \<Rightarrow> bool \<Rightarrow> error + Transaction" where
  "Transaction_fromBuffer b NO_STRICT =
     ebind (readTransaction \<lparr>buffer = b, offset = 0\<rparr>) (\<lambda>(tx, bufferReader).
       if NO_STRICT then Inr tx
       else if offset bufferReader \<noteq> length b then Inl UnexpectedData
       else Inr tx)"

text \<open>
  \<^verbatim>\<open>bcrypto.hash256\<close> (module \<^verbatim>\<open>./crypto\<close>, not among the source files) is a
  parameter \<open>hash256\<close> of every function that hashes: nothing is assumed of it.
\<close>

text \<open>\<^verbatim>\<open>isCoinbaseHash\<close>: \<^verbatim>\<open>typeforce(types.Hash256bit, buffer)\<close> throws unless the
  buffer has 32 bytes; the loop then looks for a non-zero byte.\<close>

function isCoinbaseHash_loop :: "nat \<Rightarrow> Buffer \<Rightarrow> bool" where
  "isCoinbaseHash_loop i b =
     (if i < 32 then (if b ! i \<noteq> 0 then False else isCoinbaseHash_loop (i + 1) b) else True)"
  by pat_completeness auto
termination
  by (relation "measure (\<lambda>(i, b). 32 - i)") auto

declare isCoinbaseHash_loop.simps [simp del]

definition isCoinbaseHash :: "Buffer \<Rightarrow> error + bool" where
  "isCoinbaseHash b = (if length b \<noteq> 32 then Inl TypeError else Inr (isCoinbaseHash_loop 0 b))"

definition isCoinbase :: "Transaction \<Rightarrow> error + bool" where
  "isCoinbase tx = (if length (ins tx) = 1 then isCoinbaseHash (hash (ins tx ! 0)) else Inr False)"

definition Transaction_getHash :: "(Buffer \<Rightarrow> Buffer) \<Rightarrow> Transaction \<Rightarrow> error + Buffer" where
  "Transaction_getHash hash256 tx =
     ebind (isCoinbase tx) (\<lambda>cb.
       if cb then Inr (replicate 32 0)
       else ebind (Transaction_toBuffer tx None None) (\<lambda>(res, b). Inr (hash256 res)))"

fun hexDigit :: "nat \<Rightarrow> char" where
  "hexDigit n = (''0123456789abcdef'' ! n)"

definition toHex :: "Buffer \<Rightarrow> string" where
  "toHex b = concat (map (\<lambda>x. [hexDigit (unat x div 16), hexDigit (unat x mod 16)]) b)"

definition Transaction_getId :: "(Buffer \<Rightarrow> Buffer) \<Rightarrow> Transaction \<Rightarrow> error + string" where
  "Transaction_getId hash256 tx =
     ebind (Transaction_getHash hash256 tx) (\<lambda>h. Inr (toHex (reverseBuffer h)))"

subsection \<open>The signature hash\<close>










section \<open>Block\<close>

text \<open>The field \<^verbatim>\<open>version\<close> of a block is \<open>blk_version\<close> here: a transaction has a
  field of the same name. Optional fields (\<^verbatim>\<open>prevHash?\<close>, \<^verbatim>\<open>transactions?\<close>) are options,
  \<open>None\<close> for \<^verbatim>\<open>undefined\<close>.\<close>

record Block =
  blk_version :: int
  prevHash :: "Buffer option"
  merkleRoot :: "Buffer option"
  timestamp :: int
  witnessCommit :: "Buffer option"
  bits :: int
  nonce :: int
  transactions :: "Transaction list option"

fun readTransactions :: "nat \<Rightarrow> cursor \<Rightarrow> error + (Transaction list \<times> cursor)" where
  "readTransactions 0 r = Inr ([], r)"
| "readTransactions (Suc n) r =
     ebind (Transaction_fromBuffer (drop (offset r) (buffer r)) True) (\<lambda>tx.
     ebind (readTransactions n (r\<lparr>offset := offset r + Transaction_byteLength tx\<rparr>)) (\<lambda>(rest, r).
     Inr (tx # rest, r)))"

definition Block_fromBuffer :: "Buffer \<Rightarrow> error + Block" where
  "Block_fromBuffer b =
     (if length b < 80 then Inl BufferTooSmall
      else
        ebind (readInt32 \<lparr>buffer = b, offset = 0\<rparr>) (\<lambda>(v, r).
        ebind (readSlice 32 r) (\<lambda>(ph, r).
        ebind (readSlice 32 r) (\<lambda>(mr, r).
        ebind (readUInt32 r) (\<lambda>(ts, r).
        ebind (readUInt32 r) (\<lambda>(bi, r).
        ebind (readUInt32 r) (\<lambda>(no, r).
          let block = \<lparr>blk_version = v, prevHash = Some ph, merkleRoot = Some mr, timestamp = ts,
                        witnessCommit = None, bits = bi, nonce = no, transactions = None\<rparr>
          in if length b = 80 then Inr block
             else ebind (readVarInt r) (\<lambda>(nTransactions, r).
                  ebind (readTransactions nTransactions r) (\<lambda>(txs, r).
                  Inr (block\<lparr>transactions := Some txs\<rparr>))))))))))"

text \<open>Node's \<^verbatim>\<open>buf.writeUIntBE(value, offset, byteLength)\<close>: a \<open>RangeError\<close> unless
  \<open>0 \<le> offset \<le> length - byteLength\<close> and the value fits.
  \<^verbatim>\<open>a.compare(b)\<close> orders buffers bytewise, a proper prefix first.\<close>

definition writeUIntBE :: "Buffer \<Rightarrow> int \<Rightarrow> int \<Rightarrow> nat \<Rightarrow> error + Buffer" where
  "writeUIntBE buf v off n =
     (if v < 0 \<or> 256 ^ n \<le> v then Inl RangeError
      else if off < 0 \<or> int (length buf) < off + int n then Inl RangeError
      else Inr (take (nat off) buf @ rev (le_bytes n v) @ drop (nat off + n) buf))"

fun compare :: "Buffer \<Rightarrow> Buffer \<Rightarrow> int" where
  "compare [] [] = 0"
| "compare [] (y # ys) = - 1"
| "compare (x # xs) [] = 1"
| "compare (x # xs) (y # ys) = (if x < y then - 1 else if y < x then 1 else compare xs ys)"

definition calculateTarget :: "int \<Rightarrow> error + Buffer" where
  "calculateTarget bts =
     (let exponent = js_sar (js_and bts 0xff000000) 24 - 3;
          mantissa = js_and bts 0x007fffff;
          target = replicate 32 0
      in writeUIntBE target mantissa (29 - exponent) 3)"

text \<open>
  \<^verbatim>\<open>fastMerkleRoot(hashes, digestFn)\<close> of the library merkle-lib is not among the source
  files. Modelled from the spec: each level pairs adjacent nodes left to right and
  replaces a pair by the digest of its concatenation, a last node without a partner
  being paired with itself, until one node remains.
\<close>

fun merkle_level :: "(Buffer \<Rightarrow> Buffer) \<Rightarrow> Buffer list \<Rightarrow> Buffer list" where
  "merkle_level digestFn [] = []"
| "merkle_level digestFn [x] = [digestFn (x @ x)]"
| "merkle_level digestFn (x # y # zs) = digestFn (x @ y) # merkle_level digestFn zs"

lemma length_merkle_level: "length (merkle_level digestFn xs) = (length xs + 1) div 2"
  by (induction digestFn xs rule: merkle_level.induct) auto

function fastRoot :: "(Buffer \<Rightarrow> Buffer) \<Rightarrow> Buffer list \<Rightarrow> Buffer option" where
  "fastRoot digestFn [] = None"
| "fastRoot digestFn [x] = Some x"
| "fastRoot digestFn (x # y # zs) = fastRoot digestFn (merkle_level digestFn (x # y # zs))"
  by pat_completeness auto
termination
  by (relation "measure (\<lambda>(d, xs). length xs)") (auto simp: length_merkle_level)

fun mapE :: "('a \<Rightarrow> error + 'b) \<Rightarrow> 'a list \<Rightarrow> error + 'b list" where
  "mapE f [] = Inr []"
| "mapE f (x # xs) = ebind (f x) (\<lambda>y. ebind (mapE f xs) (\<lambda>ys. Inr (y # ys)))"

definition calculateMerkleRoot :: "(Buffer \<Rightarrow> Buffer) \<Rightarrow> Transaction list \<Rightarrow> error + Buffer" where
  "calculateMerkleRoot hash256 txs =
     (if length txs = 0 then Inl MerkleNoTxes
      else ebind (mapE (Transaction_getHash hash256) txs) (\<lambda>hashes.
           case fastRoot hash256 hashes of None \<Rightarrow> Inl TypeError | Some rootHash \<Rightarrow> Inr rootHash))"

definition Block_byteLength :: "Block \<Rightarrow> bool \<Rightarrow> nat" where
  "Block_byteLength b headersOnly =
     (case transactions b of
        None \<Rightarrow> 80
      | Some txs \<Rightarrow>
          if headersOnly then 80
          else 80 + encodingLength (length txs) + foldl (\<lambda>a x. a + Transaction_byteLength x) 0 txs)"

definition writeHeader :: "Block \<Rightarrow> cursor \<Rightarrow> error + cursor" where
  "writeHeader b w =
     ebind (writeInt32 (blk_version b) w) (\<lambda>w.
     ebind (writeSliceOpt (prevHash b) w) (\<lambda>w.
     ebind (writeSliceOpt (merkleRoot b) w) (\<lambda>w.
     ebind (writeUInt32 (timestamp b) w) (\<lambda>w.
     ebind (writeUInt32 (bits b) w) (\<lambda>w.
     writeUInt32 (nonce b) w)))))"

definition writeTx :: "Transaction \<Rightarrow> cursor \<Rightarrow> error + cursor" where
  "writeTx tx w =
     (let txSize = Transaction_byteLength tx
      in ebind (Transaction_toBuffer tx (Some (buffer w)) (Some (offset w))) (\<lambda>(res, b).
           Inr \<lparr>buffer = b, offset = offset w + txSize\<rparr>))"

definition Block_toBuffer :: "Block \<Rightarrow> bool \<Rightarrow> error + Buffer" where
  "Block_toBuffer b headersOnly =
     ebind (writeHeader b \<lparr>buffer = allocUnsafe (Block_byteLength b headersOnly), offset = 0\<rparr>) (\<lambda>w.
       case transactions b of
         None \<Rightarrow> Inr (buffer w)
       | Some txs \<Rightarrow>
           if headersOnly then Inr (buffer w)
           else ebind (writeVarInt (length txs) w) (\<lambda>w.
                ebind (forEach writeTx txs w) (\<lambda>w. Inr (buffer w))))"

definition Block_getHash :: "(Buffer \<Rightarrow> Buffer) \<Rightarrow> Block \<Rightarrow> error + Buffer" where
  "Block_getHash hash256 b = ebind (Block_toBuffer b True) (\<lambda>buf. Inr (hash256 buf))"

definition Block_getId :: "(Buffer \<Rightarrow> Buffer) \<Rightarrow> Block \<Rightarrow> error + string" where
  "Block_getId hash256 b = ebind (Block_getHash hash256 b) (\<lambda>h. Inr (toHex (reverseBuffer h)))"

definition checkProofOfWork :: "(Buffer \<Rightarrow> Buffer) \<Rightarrow> Block \<Rightarrow> error + bool" where
  "checkProofOfWork hash256 b =
     ebind (Block_getHash hash256 b) (\<lambda>h.
       let hash = reverseBuffer h
       in ebind (calculateTarget (bits b)) (\<lambda>target.
            Inr (compare hash target \<le> 0)))"

definition checkMerkleRoot :: "(Buffer \<Rightarrow> Buffer) \<Rightarrow> Block \<Rightarrow> error + bool" where
  "checkMerkleRoot hash256 b =
     (case transactions b of
        None \<Rightarrow> Inl MerkleNoTxes
      | Some txs \<Rightarrow>
          ebind (calculateMerkleRoot hash256 txs) (\<lambda>actualMerkleRoot.
            case merkleRoot b of
              None \<Rightarrow> Inl TypeError
            | Some mr \<Rightarrow> Inr (compare mr actualMerkleRoot = 0)))"

subsection \<open>Appending inputs and outputs to a transaction\<close>

text \<open>
  \<^verbatim>\<open>types.Satoshi\<close> is declared in the module \<^verbatim>\<open>types\<close>, which is not among the source files.
  Modelled from the spec: the value of an output must be a non-negative integer representable
  in 64 bits.
\<close>

definition Satoshi :: "int \<Rightarrow> bool" where
  "Satoshi v = (0 \<le> v \<and> v \<le> 0xffffffffffffffff)"

definition UInt32 :: "int \<Rightarrow> bool" where
  "UInt32 v = (0 \<le> v \<and> v \<le> 0xffffffff)"

definition DEFAULT_SEQUENCE :: int where "DEFAULT_SEQUENCE = 0xffffffff"

definition Transaction_addInput ::
  "Transaction \<Rightarrow> Buffer \<Rightarrow> int \<Rightarrow> int option \<Rightarrow> Buffer option \<Rightarrow> error + (nat \<times> Transaction)" where
  "Transaction_addInput tx hash' index' sequence' scriptSig =
     (if length hash' \<noteq> 32 \<or> \<not> UInt32 index' \<or> (case sequence' of None \<Rightarrow> False | Some q \<Rightarrow> \<not> UInt32 q)
      then Inl TypeError
      else let sequence' = (case sequence' of None \<Rightarrow> DEFAULT_SEQUENCE | Some q \<Rightarrow> q)
        in Inr (length (ins tx),
                tx\<lparr>ins := ins tx @ [\<lparr>hash = hash', index = index',
                         script = (case scriptSig of None \<Rightarrow> EMPTY_SCRIPT | Some s \<Rightarrow> s),
                         sequence = sequence'\<rparr>]\<rparr>))"

definition Transaction_addOutput :: "Transaction \<Rightarrow> Buffer \<Rightarrow> int \<Rightarrow> error + (nat \<times> Transaction)" where
  "Transaction_addOutput tx scriptPubKey value' =
     (if \<not> Satoshi value' then Inl TypeError
      else Inr (length (outs tx), tx\<lparr>outs := outs tx @ [Output scriptPubKey value']\<rparr>))"

subsection \<open>The transaction builder\<close>

text \<open>
  Modelled from the spec: the class \<^verbatim>\<open>TransactionBuilder\<close> is present in the sources only as
  the declaration \<^verbatim>\<open>types/transaction_builder.d.ts\<close>; its state and its two mutations
  \<^verbatim>\<open>addInput\<close> and \<^verbatim>\<open>addOutput\<close> follow sections 3 and 4.4 of the spec. The state is the
  in-progress transaction and, in parallel with its inputs, the metadata of each input: the
  lock script and value of the spent output when known, a redeem script, and the signatures
  applied so far, each with the \<open>hashType\<close> it was computed under. \<^verbatim>\<open>addInput\<close> is rejected once
  a signature's \<open>hashType\<close> lacks the "any one can pay" bit; \<^verbatim>\<open>addOutput\<close> is rejected once a
  signature's \<open>hashType & 0x1f\<close> is \<open>ALL\<close>, or is \<open>SINGLE\<close> at an input index at or past the
  position the new output would take. A rejected call leaves the state as it was; an accepted
  call appends to the in-progress transaction (\<^verbatim>\<open>Transaction.addInput\<close> and
  \<^verbatim>\<open>Transaction.addOutput\<close> above) and returns the new index. A call returns its result
  together with the state it leaves.
\<close>

record Signature =
  sig_data :: Buffer
  sig_hashType :: int

record BuilderInput =
  lockScript :: "Buffer option"
  lockValue :: "int option"
  redeemScript :: "Buffer option"
  signatures :: "Signature list"

record TransactionBuilder =
  TX :: Transaction
  INPUTS :: "BuilderInput list"
  maximumFeeRate :: int

definition canModifyInputs :: "TransactionBuilder \<Rightarrow> bool" where
  "canModifyInputs b =
     list_all (\<lambda>input. list_all (\<lambda>s. js_and (sig_hashType s) SIGHASH_ANYONECANPAY \<noteq> 0)
                 (signatures input)) (INPUTS b)"

definition canModifyOutputs :: "TransactionBuilder \<Rightarrow> bool" where
  "canModifyOutputs b =
     (let position = length (outs (TX b))
      in list_all (\<lambda>(vin, input). list_all (\<lambda>s.
           let hashTypeMod = js_and (sig_hashType s) 0x1f
           in \<not> (hashTypeMod = SIGHASH_ALL \<or> (hashTypeMod = SIGHASH_SINGLE \<and> vin \<ge> position)))
           (signatures input)) (zip [0..<length (INPUTS b)] (INPUTS b)))"

definition TransactionBuilder_addInput ::
  "TransactionBuilder \<Rightarrow> Buffer \<Rightarrow> int \<Rightarrow> int option \<Rightarrow> Buffer option \<Rightarrow>
     (error + nat) \<times> TransactionBuilder" where
  "TransactionBuilder_addInput b txHash vout sequence' prevOutScript' =
     (if \<not> canModifyInputs b then (Inl IllegalMutation, b)
      else case Transaction_addInput (TX b) txHash vout sequence' None of
        Inl e \<Rightarrow> (Inl e, b)
      | Inr (vin, tx) \<Rightarrow>
          (Inr vin, b\<lparr>TX := tx,
                      INPUTS := INPUTS b @ [\<lparr>lockScript = prevOutScript', lockValue = None,
                                             redeemScript = None, signatures = []\<rparr>]\<rparr>))"

definition TransactionBuilder_addOutput ::
  "TransactionBuilder \<Rightarrow> Buffer \<Rightarrow> int \<Rightarrow> (error + nat) \<times> TransactionBuilder" where
  "TransactionBuilder_addOutput b scriptPubKey value' =
     (if \<not> canModifyOutputs b then (Inl IllegalMutation, b)
      else case Transaction_addOutput (TX b) scriptPubKey value' of
        Inl e \<Rightarrow> (Inl e, b)
      | Inr (vout, tx) \<Rightarrow> (Inr vout, b\<lparr>TX := tx\<rparr>))"

section \<open>Little-endian codec and writer lemmas\<close>

lemma ebind_Inr_iff: "ebind m f = Inr y \<longleftrightarrow> (\<exists>x. m = Inr x \<and> f x = Inr y)"
  by (cases m) auto

lemma length_le_bytes [simp]: "length (le_bytes n v) = n"
  by (induction n arbitrary: v) auto

lemma le_int_le_bytes: "le_int (le_bytes n v) = v mod 256 ^ n"
proof (induction n arbitrary: v)
  case 0 show ?case by simp
next
  case (Suc n)
  have "uint (word_of_int (v mod 256) :: byte) = v mod 256"
    by (simp add: uint_word_of_int)
  moreover have "v mod (256 * 256 ^ n) = 256 * (v div 256 mod 256 ^ n) + v mod 256"
    by (rule zmod_zmult2_eq) simp
  ultimately show ?case using Suc[of "v div 256"]
    by simp
qed

lemma le_int_bounds: "0 \<le> le_int bs \<and> le_int bs < 256 ^ length bs"
proof (induction bs)
  case Nil show ?case by simp
next
  case (Cons b bs)
  have "0 \<le> uint b" "uint b < 256" using uint_bounded[of b] by simp_all
  then show ?case using Cons by auto
qed

lemma le_bytes_le_int: "le_bytes (length bs) (le_int bs) = bs"
proof (induction bs)
  case Nil show ?case by simp
next
  case (Cons b bs)
  have b: "0 \<le> uint b" "uint b < 256" using uint_bounded[of b] by simp_all
  then have "(uint b + 256 * le_int bs) mod 256 = uint b" by simp
  moreover have "(uint b + 256 * le_int bs) div 256 = le_int bs" using b by simp
  ultimately show ?case using Cons by simp
qed

definition fits :: "nat \<Rightarrow> cursor \<Rightarrow> bool" where
  "fits n w = (offset w + n \<le> length (buffer w))"

definition put :: "Buffer \<Rightarrow> cursor \<Rightarrow> cursor" where
  "put s w = \<lparr>buffer = take (offset w) (buffer w) @ s @ drop (offset w + length s) (buffer w),
              offset = offset w + length s\<rparr>"

lemma writeSlice_put: "writeSlice s w = (if fits (length s) w then Inr (put s w) else Inl OutOfBounds)"
  by (auto simp: writeSlice_def fits_def put_def)

lemma length_buffer_put: "fits (length s) w \<Longrightarrow> length (buffer (put s w)) = length (buffer w)"
  by (auto simp: fits_def put_def)

lemma offset_put [simp]: "offset (put s w) = offset w + length s"
  by (simp add: put_def)

lemma fits_put: "fits (length s) w \<Longrightarrow> fits n (put s w) = fits (length s + n) w"
  by (auto simp: fits_def put_def)

lemma put_put: "fits (length s + length t) w \<Longrightarrow> put t (put s w) = put (s @ t) w"
  by (auto simp: fits_def put_def ac_simps)

lemma fits_mono: "fits (m + n) w \<Longrightarrow> fits m w"
  by (simp add: fits_def)

definition writes :: "(cursor \<Rightarrow> error + cursor) \<Rightarrow> bool \<Rightarrow> Buffer \<Rightarrow> bool" where
  "writes f ok s = (\<forall>w w'. fits 0 w \<longrightarrow> (f w = Inr w' \<longleftrightarrow> ok \<and> fits (length s) w \<and> w' = put s w))"

lemma writes_bind:
  assumes "writes f okf s" "writes g okg t"
  shows "writes (\<lambda>w. ebind (f w) g) (okf \<and> okg) (s @ t)"
  unfolding writes_def
proof (intro allI impI)
  fix w w'
  assume inv: "fits 0 w"
  show "ebind (f w) g = Inr w' \<longleftrightarrow> (okf \<and> okg) \<and> fits (length (s @ t)) w \<and> w' = put (s @ t) w"
  proof
    assume "ebind (f w) g = Inr w'"
    then obtain w1 where 1: "f w = Inr w1" and 2: "g w1 = Inr w'"
      by (auto simp: ebind_Inr_iff)
    from 1 assms(1) inv have a: okf "fits (length s) w" "w1 = put s w" by (auto simp: writes_def)
    have inv1: "fits 0 w1" using a by (simp add: fits_put)
    from 2 assms(2) inv1 have b: okg "fits (length t) w1" "w' = put t w1" by (auto simp: writes_def)
    from a b have f: "fits (length s + length t) w" by (simp add: fits_put)
    then show "(okf \<and> okg) \<and> fits (length (s @ t)) w \<and> w' = put (s @ t) w"
      using a b by (simp add: put_put)
  next
    assume r: "(okf \<and> okg) \<and> fits (length (s @ t)) w \<and> w' = put (s @ t) w"
    then have f: "fits (length s + length t) w" by simp
    then have fs: "fits (length s) w" by (rule fits_mono)
    with r assms(1) inv have 1: "f w = Inr (put s w)" by (auto simp: writes_def)
    have "fits (length t) (put s w)" using f fs by (simp add: fits_put)
    moreover have "fits 0 (put s w)" using fs by (simp add: fits_put)
    ultimately have "g (put s w) = Inr (put t (put s w))" using r assms(2) by (auto simp: writes_def)
    then show "ebind (f w) g = Inr w'" using 1 r f assms(2) by (auto simp: put_put writes_def)
  qed
qed

lemma writes_slice: "writes (writeSlice s) True s"
  by (auto simp: writes_def writeSlice_put)

lemma writes_if: "(c \<Longrightarrow> writes f ok s) \<Longrightarrow> (\<not> c \<Longrightarrow> writes g ok s) \<Longrightarrow> writes (\<lambda>w. if c then f w else g w) ok s"
  by (cases c) auto

lemma writes_guard: "writes f True s \<Longrightarrow> writes (\<lambda>w. if c then Inl e else f w) (\<not> c) s"
  by (auto simp: writes_def)

lemma writes_forEach:
  assumes "\<And>x. x \<in> set xs \<Longrightarrow> writes (f x) (ok x) (enc x)"
  shows "writes (forEach f xs) (list_all ok xs) (concat (map enc xs))"
  using assms
proof (induction xs)
  case Nil
  show ?case by (auto simp: writes_def put_def fits_def)
next
  case (Cons x xs)
  have 1: "writes (f x) (ok x) (enc x)" using Cons.prems by simp
  have 2: "writes (forEach f xs) (list_all ok xs) (concat (map enc xs))"
    using Cons by simp
  have "forEach f (x # xs) = (\<lambda>w. ebind (f x w) (forEach f xs))" by (rule ext) simp
  then show ?case using writes_bind[OF 1 2] by simp
qed

definition opt_bytes :: "Buffer option \<Rightarrow> Buffer" where
  "opt_bytes s = (case s of None \<Rightarrow> [] | Some x \<Rightarrow> x)"

lemma writes_SliceOpt: "writes (writeSliceOpt s) (s \<noteq> None) (opt_bytes s)"
  using writes_slice by (cases s) (auto simp: writeSliceOpt_def[abs_def] opt_bytes_def writes_def)

section \<open>The wire format and what the writer produces\<close>

definition u32 :: "int \<Rightarrow> bool" where "u32 x = (0 \<le> x \<and> x \<le> 0xffffffff)"
definition i32 :: "int \<Rightarrow> bool" where "i32 x = (- (2 ^ 31) \<le> x \<and> x \<le> 2 ^ 31 - 1)"
definition u64 :: "int \<Rightarrow> bool" where "u64 x = (0 \<le> x \<and> x \<le> 0xffffffffffffffff)"
definition varint_ok :: "nat \<Rightarrow> bool" where "varint_ok n = (n \<le> 0xffffffffffffffff)"

definition wire_input :: "Input \<Rightarrow> Buffer" where
  "wire_input i = hash i @ le_bytes 4 (index i) @ (encode (length (script i)) @ script i) @ le_bytes 4 (sequence i)"

definition wire_output :: "Output \<Rightarrow> Buffer" where
  "wire_output out = (case out of Output s v \<Rightarrow> le_bytes 8 v | Blank s vb \<Rightarrow> opt_bytes vb) @
     (encode (length (out_script out)) @ out_script out)"

definition wire_tx :: "Transaction \<Rightarrow> Buffer" where
  "wire_tx tx = le_bytes 4 (version tx) @
     (if version tx \<ge> 2 then le_bytes 8 (time tx) else le_bytes 4 (time tx)) @
     encode (length (ins tx)) @ concat (map wire_input (ins tx)) @
     encode (length (outs tx)) @ concat (map wire_output (outs tx)) @
     le_bytes 4 (locktime tx)"

definition ok_input :: "Input \<Rightarrow> bool" where
  "ok_input i = (u32 (index i) \<and> varint_ok (length (script i)) \<and> u32 (sequence i))"

definition ok_output :: "Output \<Rightarrow> bool" where
  "ok_output out = ((case out of Output s v \<Rightarrow> u64 v | Blank s vb \<Rightarrow> vb \<noteq> None) \<and> varint_ok (length (out_script out)))"

definition ok_tx :: "Transaction \<Rightarrow> bool" where
  "ok_tx tx = (i32 (version tx) \<and> (if version tx \<ge> 2 then u64 (time tx) else u32 (time tx)) \<and>
     varint_ok (length (ins tx)) \<and> list_all ok_input (ins tx) \<and>
     varint_ok (length (outs tx)) \<and> list_all ok_output (outs tx) \<and> u32 (locktime tx))"

lemma writes_cong: "writes f ok s \<Longrightarrow> ok = ok' \<Longrightarrow> s = s' \<Longrightarrow> writes f ok' s'"
  by simp

lemma writes_Int32: "writes (writeInt32 i) (i32 i) (le_bytes 4 i)"
  by (auto simp: writes_def writeInt32_def i32_def writeSlice_put)

lemma writes_UInt32: "writes (writeUInt32 i) (u32 i) (le_bytes 4 i)"
  by (auto simp: writes_def writeUInt32_def u32_def writeSlice_put)

lemma writes_UInt64: "writes (writeUInt64 i) (u64 i) (le_bytes 8 i)"
  by (auto simp: writes_def writeUInt64_def u64_def writeSlice_put)

lemma writes_VarInt: "writes (writeVarInt n) (varint_ok n) (encode n)"
  by (auto simp: writes_def writeVarInt_def varint_ok_def writeSlice_put)

lemma writes_VarSlice: "writes (writeVarSlice s) (varint_ok (length s)) (encode (length s) @ s)"
proof -
  have "writes (\<lambda>w. ebind (writeVarInt (length s) w) (writeSlice s)) (varint_ok (length s) \<and> True) (encode (length s) @ s)"
    by (rule writes_bind[OF writes_VarInt writes_slice])
  moreover have "writeVarSlice s = (\<lambda>w. ebind (writeVarInt (length s) w) (writeSlice s))"
    by (rule ext) (simp add: writeVarSlice_def)
  ultimately show ?thesis by simp
qed

lemma writes_Input: "writes (writeInput i) (ok_input i) (wire_input i)"
proof -
  note b = writes_bind
  have "writes (\<lambda>w. ebind (writeSlice (hash i) w) (\<lambda>w. ebind (writeUInt32 (index i) w)
           (\<lambda>w. ebind (writeVarSlice (script i) w) (writeUInt32 (sequence i)))))
          (True \<and> u32 (index i) \<and> varint_ok (length (script i)) \<and> u32 (sequence i))
          (hash i @ le_bytes 4 (index i) @ (encode (length (script i)) @ script i) @ le_bytes 4 (sequence i))"
    by (intro b writes_slice writes_UInt32 writes_VarSlice)
  moreover have "writeInput i = (\<lambda>w. ebind (writeSlice (hash i) w) (\<lambda>w. ebind (writeUInt32 (index i) w)
           (\<lambda>w. ebind (writeVarSlice (script i) w) (writeUInt32 (sequence i)))))"
    by (rule ext) (simp add: writeInput_def)
  ultimately show ?thesis by (simp add: ok_input_def wire_input_def)
qed

lemma writes_Output: "writes (writeOutput out) (ok_output out) (wire_output out)"
proof (cases out)
  case (Output s v)
  have "writes (\<lambda>w. ebind (writeUInt64 v w) (writeVarSlice s)) (u64 v \<and> varint_ok (length s))
          (le_bytes 8 v @ (encode (length s) @ s))"
    by (intro writes_bind writes_UInt64 writes_VarSlice)
  moreover have "writeOutput out = (\<lambda>w. ebind (writeUInt64 v w) (writeVarSlice s))"
    by (rule ext) (simp add: writeOutput_def Output)
  ultimately show ?thesis by (simp add: ok_output_def wire_output_def Output)
next
  case (Blank s vb)
  have "writes (\<lambda>w. ebind (writeSliceOpt vb w) (writeVarSlice s)) (vb \<noteq> None \<and> varint_ok (length s))
          (opt_bytes vb @ (encode (length s) @ s))"
    by (intro writes_bind writes_SliceOpt writes_VarSlice)
  moreover have "writeOutput out = (\<lambda>w. ebind (writeSliceOpt vb w) (writeVarSlice s))"
    by (rule ext) (simp add: writeOutput_def Blank)
  ultimately show ?thesis by (simp add: ok_output_def wire_output_def Blank)
qed

lemma writes_time:
  "writes (\<lambda>w. if version tx \<ge> 2 then writeUInt64 (time tx) w else writeUInt32 (time tx) w)
     (if version tx \<ge> 2 then u64 (time tx) else u32 (time tx))
     (if version tx \<ge> 2 then le_bytes 8 (time tx) else le_bytes 4 (time tx))"
  using writes_UInt64[of "time tx"] writes_UInt32[of "time tx"] by simp

lemma writes_Transaction: "writes (writeTransaction tx) (ok_tx tx) (wire_tx tx)"
proof -
  have "writes (\<lambda>w. ebind (writeInt32 (version tx) w) (\<lambda>w.
     ebind (if version tx \<ge> 2 then writeUInt64 (time tx) w else writeUInt32 (time tx) w) (\<lambda>w.
     ebind (writeVarInt (length (ins tx)) w) (\<lambda>w.
     ebind (forEach writeInput (ins tx) w) (\<lambda>w.
     ebind (writeVarInt (length (outs tx)) w) (\<lambda>w.
     ebind (forEach writeOutput (outs tx) w) (writeUInt32 (locktime tx))))))))
     (i32 (version tx) \<and> (if version tx \<ge> 2 then u64 (time tx) else u32 (time tx)) \<and>
      varint_ok (length (ins tx)) \<and> list_all ok_input (ins tx) \<and>
      varint_ok (length (outs tx)) \<and> list_all ok_output (outs tx) \<and> u32 (locktime tx))
     (le_bytes 4 (version tx) @
     (if version tx \<ge> 2 then le_bytes 8 (time tx) else le_bytes 4 (time tx)) @
     encode (length (ins tx)) @ concat (map wire_input (ins tx)) @
     encode (length (outs tx)) @ concat (map wire_output (outs tx)) @
     le_bytes 4 (locktime tx))"
    by (intro writes_bind writes_Int32 writes_time writes_VarInt writes_forEach writes_Input
          writes_Output writes_UInt32)
  moreover have "writeTransaction tx = (\<lambda>w. ebind (writeInt32 (version tx) w) (\<lambda>w.
     ebind (if version tx \<ge> 2 then writeUInt64 (time tx) w else writeUInt32 (time tx) w) (\<lambda>w.
     ebind (writeVarInt (length (ins tx)) w) (\<lambda>w.
     ebind (forEach writeInput (ins tx) w) (\<lambda>w.
     ebind (writeVarInt (length (outs tx)) w) (\<lambda>w.
     ebind (forEach writeOutput (outs tx) w) (writeUInt32 (locktime tx))))))))"
    by (rule ext) (simp add: writeTransaction_def)
  ultimately show ?thesis by (simp add: ok_tx_def wire_tx_def)
qed

definition wf_input :: "Input \<Rightarrow> bool" where
  "wf_input i = (length (hash i) = 32)"

definition wf_output :: "Output \<Rightarrow> bool" where
  "wf_output out = (case out of Output s v \<Rightarrow> True | Blank s vb \<Rightarrow> length (opt_bytes vb) = 8)"

definition wf_tx :: "Transaction \<Rightarrow> bool" where
  "wf_tx tx = (list_all wf_input (ins tx) \<and> list_all wf_output (outs tx))"

lemma length_encode: "length (encode n) = encodingLength n"
  by (simp add: encode_def encodingLength_def)

lemma foldl_add_sum: "foldl (\<lambda>sum x. sum + f x) a xs = a + sum_list (map f xs)"
  by (induction xs arbitrary: a) (auto simp: add.assoc)

lemma byteLength_sum:
  "Transaction_byteLength tx =
     (if version tx \<ge> 2 then 16 else 12) +
     encodingLength (length (ins tx)) + encodingLength (length (outs tx)) +
     (\<Sum>i\<leftarrow>ins tx. 40 + (encodingLength (length (script i)) + length (script i))) +
     (\<Sum>out\<leftarrow>outs tx. 8 + (encodingLength (length (out_script out)) + length (out_script out)))"
proof -
  have 1: "foldl (\<lambda>sum input. sum + 40 + varSliceSize (script input)) 0 (ins tx)
        = (\<Sum>i\<leftarrow>ins tx. 40 + (encodingLength (length (script i)) + length (script i)))"
    using foldl_add_sum[of "\<lambda>i. 40 + varSliceSize (script i)" 0 "ins tx"]
    by (simp add: varSliceSize_def add.assoc)
  have 2: "foldl (\<lambda>sum output. sum + 8 + varSliceSize (out_script output)) 0 (outs tx)
        = (\<Sum>out\<leftarrow>outs tx. 8 + (encodingLength (length (out_script out)) + length (out_script out)))"
    using foldl_add_sum[of "\<lambda>i. 8 + varSliceSize (out_script i)" 0 "outs tx"]
    by (simp add: varSliceSize_def add.assoc)
  show ?thesis unfolding Transaction_byteLength_def 1 2 ..
qed

lemma length_wire_input: "wf_input i \<Longrightarrow> length (wire_input i) = 40 + (encodingLength (length (script i)) + length (script i))"
  by (simp add: wire_input_def wf_input_def length_encode)

lemma length_wire_output: "wf_output out \<Longrightarrow> length (wire_output out) = 8 + (encodingLength (length (out_script out)) + length (out_script out))"
  by (cases out) (simp_all add: wire_output_def wf_output_def length_encode)

lemma length_concat_map: "length (concat (map f xs)) = (\<Sum>x\<leftarrow>xs. length (f x))"
  by (induction xs) auto

lemma length_wire_tx: "wf_tx tx \<Longrightarrow> length (wire_tx tx) = Transaction_byteLength tx"
proof -
  assume wf: "wf_tx tx"
  have 1: "(\<Sum>x\<leftarrow>ins tx. length (wire_input x)) = (\<Sum>i\<leftarrow>ins tx. 40 + (encodingLength (length (script i)) + length (script i)))"
    using wf by (intro arg_cong[where f=sum_list] map_cong) (auto simp: wf_tx_def list_all_iff length_wire_input)
  have 2: "(\<Sum>x\<leftarrow>outs tx. length (wire_output x)) = (\<Sum>out\<leftarrow>outs tx. 8 + (encodingLength (length (out_script out)) + length (out_script out)))"
    using wf by (intro arg_cong[where f=sum_list] map_cong) (auto simp: wf_tx_def list_all_iff length_wire_output)
  show ?thesis
    by (simp add: wire_tx_def byteLength_sum length_concat_map length_encode 1 2)
qed

lemma writes_length:
  assumes "writes f ok s" "fits 0 w" "f w = Inr w'"
  shows "length (buffer w') = length (buffer w)" "offset w' = offset w + length s" "ok"
  using assms by (auto simp: writes_def length_buffer_put)

lemma toBuffer_length:
  assumes "Transaction_toBuffer tx None None = Inr (res, b)"
  shows "length res = Transaction_byteLength tx" "b = res"
proof -
  let ?w = "\<lparr>buffer = allocUnsafe (Transaction_byteLength tx), offset = 0\<rparr>"
  from assms obtain w' where w': "writeTransaction tx ?w = Inr w'" and r: "res = buffer w'" "b = buffer w'"
    by (auto simp: Transaction_toBuffer_def ebind_Inr_iff)
  have "fits 0 ?w" by (simp add: fits_def)
  from writes_length(1)[OF writes_Transaction this w'] r
  show "length res = Transaction_byteLength tx" "b = res" by (simp_all add: allocUnsafe_def)
qed

lemma serialize_length: "serialize tx = Inr bs \<Longrightarrow> length bs = Transaction_byteLength tx"
  using toBuffer_length(1)[of tx bs] by (auto simp: serialize_def ebind_Inr_iff)

lemma put_whole: "offset w = 0 \<Longrightarrow> length s = length (buffer w) \<Longrightarrow> put s w = \<lparr>buffer = s, offset = length s\<rparr>"
  by (simp add: put_def)

lemma serialize_wire:
  assumes "wf_tx tx"
  shows "serialize tx = Inr bs \<longleftrightarrow> ok_tx tx \<and> bs = wire_tx tx"
proof -
  let ?w = "\<lparr>buffer = allocUnsafe (Transaction_byteLength tx), offset = 0\<rparr>"
  have f0: "fits 0 ?w" by (simp add: fits_def)
  have fl: "fits (length (wire_tx tx)) ?w" using assms by (simp add: fits_def length_wire_tx allocUnsafe_def)
  have p: "put (wire_tx tx) ?w = \<lparr>buffer = wire_tx tx, offset = length (wire_tx tx)\<rparr>"
    using assms by (intro put_whole) (simp_all add: length_wire_tx allocUnsafe_def)
  have "writeTransaction tx ?w = Inr w' \<longleftrightarrow> ok_tx tx \<and> w' = \<lparr>buffer = wire_tx tx, offset = length (wire_tx tx)\<rparr>" for w'
    using writes_Transaction[of tx] f0 fl p by (simp add: writes_def)
  then show ?thesis
    by (auto simp: serialize_def Transaction_toBuffer_def ebind_Inr_iff)
qed

lemma writeTransaction_offset:
  assumes "wf_tx tx" "fits 0 w" "writeTransaction tx w = Inr w'"
  shows "offset w' = offset w + Transaction_byteLength tx"
  using writes_length(2)[OF writes_Transaction assms(2,3)] assms(1) by (simp add: length_wire_tx)

section \<open>What the reader accepts\<close>

definition at :: "cursor \<Rightarrow> Buffer \<Rightarrow> bool" where
  "at r bs = (offset r \<le> length (buffer r) \<and> drop (offset r) (buffer r) = bs)"

definition adv :: "nat \<Rightarrow> cursor \<Rightarrow> cursor" where
  "adv n r = r\<lparr>offset := offset r + n\<rparr>"

definition yields :: "(cursor \<Rightarrow> error + ('a \<times> cursor)) \<Rightarrow> Buffer \<Rightarrow> 'a \<Rightarrow> bool" where
  "yields f c v = (\<forall>r rest. at r (c @ rest) \<longrightarrow> f r = Inr (v, adv (length c) r))"

definition parses :: "(cursor \<Rightarrow> error + ('a \<times> cursor)) \<Rightarrow> (Buffer \<Rightarrow> 'a \<Rightarrow> bool) \<Rightarrow> bool" where
  "parses f R = (\<forall>r v r'. offset r \<le> length (buffer r) \<longrightarrow> f r = Inr (v, r') \<longrightarrow>
     (\<exists>c rest. at r (c @ rest) \<and> r' = adv (length c) r \<and> yields f c v \<and> R c v))"

lemma at_adv: "at r (c @ rest) \<Longrightarrow> at (adv (length c) r) rest"
proof -
  assume a: "at r (c @ rest)"
  have "length (drop (offset r) (buffer r)) = length c + length rest" "offset r \<le> length (buffer r)"
    using a by (simp_all add: at_def)
  then have le: "offset r + length c \<le> length (buffer r)" by simp
  have "drop (offset r + length c) (buffer r) = drop (length c) (drop (offset r) (buffer r))"
    by (simp add: add.commute)
  also have "\<dots> = rest" using a by (simp add: at_def)
  finally show ?thesis using le by (simp add: at_def adv_def)
qed

lemma adv_adv: "adv m (adv n r) = adv (n + m) r"
  by (simp add: adv_def add.assoc)

lemma adv_0 [simp]: "adv 0 r = r"
  by (simp add: adv_def)

lemma readSlice_at: "at r (c @ rest) \<Longrightarrow> readSlice (length c) r = Inr (c, adv (length c) r)"
proof -
  assume a: "at r (c @ rest)"
  have "length (drop (offset r) (buffer r)) = length c + length rest" "offset r \<le> length (buffer r)"
    using a by (simp_all add: at_def)
  then have le: "offset r + length c \<le> length (buffer r)" by simp
  have "take (length c) (drop (offset r) (buffer r)) = c" using a by (simp add: at_def)
  then show ?thesis using le by (simp add: readSlice_def slice_def adv_def)
qed

lemma readSlice_Inr:
  assumes "readSlice n r = Inr (s, r')"
  shows "length s = n" "at r (s @ drop (offset r + n) (buffer r))" "r' = adv n r"
proof -
  from assms have le: "offset r + n \<le> length (buffer r)"
    and s: "s = take n (drop (offset r) (buffer r))" and r': "r' = adv n r"
    by (auto simp: readSlice_def slice_def adv_def split: if_splits)
  show "length s = n" using le s by simp
  show "r' = adv n r" by fact
  have "drop (offset r) (buffer r) = take n (drop (offset r) (buffer r)) @ drop n (drop (offset r) (buffer r))"
    by (rule append_take_drop_id[symmetric])
  also have "drop n (drop (offset r) (buffer r)) = drop (offset r + n) (buffer r)"
    by (simp add: add.commute)
  finally have "drop (offset r) (buffer r) = s @ drop (offset r + n) (buffer r)" using s by simp
  then show "at r (s @ drop (offset r + n) (buffer r))" using le unfolding at_def by simp
qed

lemma yields_readSlice: "length c = n \<Longrightarrow> yields (readSlice n) c c"
  by (auto simp: yields_def readSlice_at)

lemma yields_return: "yields (\<lambda>r. Inr (v, r)) [] v"
  by (simp add: yields_def)

lemma yields_bind:
  assumes "yields f c1 x" "yields (g x) c2 v"
  shows "yields (\<lambda>r. ebind (f r) (\<lambda>(x, r'). g x r')) (c1 @ c2) v"
  unfolding yields_def
proof (intro allI impI)
  fix r rest assume a: "at r ((c1 @ c2) @ rest)"
  then have a1: "at r (c1 @ (c2 @ rest))" by simp
  then have 1: "f r = Inr (x, adv (length c1) r)" using assms(1) unfolding yields_def by blast
  have "at (adv (length c1) r) (c2 @ rest)" using a1 by (rule at_adv)
  then have "g x (adv (length c1) r) = Inr (v, adv (length c2) (adv (length c1) r))"
    using assms(2) unfolding yields_def by blast
  then show "ebind (f r) (\<lambda>(x, r'). g x r') = Inr (v, adv (length (c1 @ c2)) r)"
    using 1 by (simp add: adv_adv)
qed

lemma yields_map:
  assumes "yields f c x"
  shows "yields (\<lambda>r. ebind (f r) (\<lambda>(x, r'). Inr (h x, r'))) c (h x)"
  using yields_bind[of f c x "\<lambda>x r. Inr (h x, r)" "[]" "h x"] assms yields_return[of "h x"] by simp

lemma parses_readSlice: "parses (readSlice n) (\<lambda>c v. v = c \<and> length c = n)"
  unfolding parses_def
proof (intro allI impI)
  fix r v r' assume "offset r \<le> length (buffer r)" and a: "readSlice n r = Inr (v, r')"
  note f = readSlice_Inr[OF a]
  show "\<exists>c rest. at r (c @ rest) \<and> r' = adv (length c) r \<and> yields (readSlice n) c v \<and> v = c \<and> length c = n"
    using f yields_readSlice[of v n] by blast
qed

lemma parses_return: "parses (\<lambda>r. Inr (v, r)) (\<lambda>c x. c = [] \<and> x = v)"
  by (auto simp: parses_def yields_return at_def)

lemma parses_weaken: "parses f R \<Longrightarrow> (\<And>c v. R c v \<Longrightarrow> R' c v) \<Longrightarrow> parses f R'"
  unfolding parses_def by blast

lemma parses_bind:
  assumes "parses f R1" "\<And>x. parses (g x) (R2 x)"
  shows "parses (\<lambda>r. ebind (f r) (\<lambda>(x, r'). g x r'))
           (\<lambda>c v. \<exists>c1 c2 x. c = c1 @ c2 \<and> R1 c1 x \<and> R2 x c2 v)"
  unfolding parses_def
proof (intro allI impI)
  fix r v r' assume inv: "offset r \<le> length (buffer r)"
    and a: "ebind (f r) (\<lambda>(x, r'). g x r') = Inr (v, r')"
  then obtain x r1 where 1: "f r = Inr (x, r1)" and 2: "g x r1 = Inr (v, r')"
    by (auto simp: ebind_Inr_iff)
  from 1 assms(1) inv obtain c1 rest1 where f1: "at r (c1 @ rest1)" "r1 = adv (length c1) r"
      "yields f c1 x" "R1 c1 x" unfolding parses_def by blast
  have a1: "at r1 rest1" using f1(1,2) at_adv by blast
  have inv1: "offset r1 \<le> length (buffer r1)" using a1 by (simp add: at_def)
  from 2 assms(2)[of x] inv1 obtain c2 rest2 where f2: "at r1 (c2 @ rest2)" "r' = adv (length c2) r1"
      "yields (g x) c2 v" "R2 x c2 v" unfolding parses_def by blast
  have "rest1 = c2 @ rest2" using a1 f2(1) by (simp add: at_def)
  then have "at r ((c1 @ c2) @ rest2)" using f1(1) by simp
  moreover have "r' = adv (length (c1 @ c2)) r" using f1(2) f2(2) by (simp add: adv_adv)
  moreover have "yields (\<lambda>r. ebind (f r) (\<lambda>(x, r'). g x r')) (c1 @ c2) v"
    using yields_bind[of f c1 x g c2 v] f1(3) f2(3) by simp
  ultimately show "\<exists>c rest. at r (c @ rest) \<and> r' = adv (length c) r \<and>
      yields (\<lambda>r. ebind (f r) (\<lambda>(x, r'). g x r')) c v \<and> (\<exists>c1 c2 x. c = c1 @ c2 \<and> R1 c1 x \<and> R2 x c2 v)"
    using f1(4) f2(4) by blast
qed

lemma parses_map:
  assumes "parses f R"
  shows "parses (\<lambda>r. ebind (f r) (\<lambda>(x, r'). Inr (h x, r'))) (\<lambda>c v. \<exists>x. R c x \<and> v = h x)"
  by (rule parses_weaken[OF parses_bind[OF assms parses_return]]) auto

definition shrinks :: "Buffer \<Rightarrow> Buffer \<Rightarrow> bool" where
  "shrinks s c = (length s \<le> length c \<and> (length s = length c \<longrightarrow> s = c))"

lemma shrinks_refl [simp]: "shrinks c c"
  by (simp add: shrinks_def)

lemma shrinks_append: "shrinks a a' \<Longrightarrow> shrinks b b' \<Longrightarrow> shrinks (a @ b) (a' @ b')"
  by (auto simp: shrinks_def)

lemma shrinks_same_length: "shrinks s c \<Longrightarrow> length s = length c \<Longrightarrow> s = c"
  by (simp add: shrinks_def)

lemma le_bytes_mod: "le_bytes n (v mod 256 ^ n) = le_bytes n v"
proof (induction n arbitrary: v)
  case 0 show ?case by simp
next
  case (Suc n)
  have 1: "v mod (256 * 256 ^ n) mod 256 = v mod 256"
    by (simp add: mod_mod_cancel)
  have 2: "v mod (256 * 256 ^ n) div 256 = (v div 256) mod 256 ^ n"
    using zmod_zmult2_eq[of "256 ^ n" v 256] by simp
  show ?case using Suc[of "v div 256"] by (simp add: 1 2)
qed

lemma le4_bounds: "length c = 4 \<Longrightarrow> u32 (le_int c)"
  using le_int_bounds[of c] by (simp add: u32_def)

lemma le8_bounds: "length c = 8 \<Longrightarrow> u64 (le_int c)"
  using le_int_bounds[of c] by (simp add: u64_def)

lemma le_int_u32: "u32 v \<Longrightarrow> le_int (le_bytes 4 v) = v"
  by (simp add: le_int_le_bytes u32_def)

lemma le_int_u64: "u64 v \<Longrightarrow> le_int (le_bytes 8 v) = v"
  by (simp add: le_int_le_bytes u64_def)

definition toSigned32 :: "int \<Rightarrow> int" where
  "toSigned32 u = (if 2 ^ 31 \<le> u then u - 2 ^ 32 else u)"

lemma toSigned32_i32: "i32 v \<Longrightarrow> toSigned32 (le_int (le_bytes 4 v)) = v"
proof -
  assume a: "i32 v"
  have e: "le_int (le_bytes 4 v) = v mod 4294967296" by (simp add: le_int_le_bytes)
  show ?thesis
  proof (cases "0 \<le> v")
    case True
    then have "v mod 4294967296 = v" using a by (simp add: i32_def)
    then show ?thesis using a True by (simp add: e toSigned32_def i32_def)
  next
    case False
    have "(v + 4294967296) mod 4294967296 = v + 4294967296"
      using a False by (intro mod_pos_pos_trivial) (simp_all add: i32_def)
    then have "v mod 4294967296 = v + 4294967296" by simp
    then show ?thesis using a False by (simp add: e toSigned32_def i32_def)
  qed
qed

lemma toSigned32_le: "length c = 4 \<Longrightarrow> i32 (toSigned32 (le_int c)) \<and> le_bytes 4 (toSigned32 (le_int c)) = c"
proof -
  assume l: "length c = 4"
  have b: "0 \<le> le_int c" "le_int c < 4294967296" using le_int_bounds[of c] l by simp_all
  have "le_bytes 4 (le_int c - 4294967296) = le_bytes 4 ((le_int c - 4294967296) mod 256 ^ 4)"
    by (rule le_bytes_mod[symmetric])
  also have "(le_int c - 4294967296) mod 256 ^ 4 = le_int c mod 256 ^ 4"
    by (simp add: mod_diff_right_eq)
  also have "le_bytes 4 (le_int c mod 256 ^ 4) = le_bytes 4 (le_int c)" by (rule le_bytes_mod)
  finally have "le_bytes 4 (le_int c - 4294967296) = c" using le_bytes_le_int[of c] l by simp
  then show ?thesis using b le_bytes_le_int[of c] l by (auto simp: toSigned32_def i32_def)
qed

lemma yields_UInt8: "length c = 1 \<Longrightarrow> yields readUInt8 c (le_int c)"
  using yields_map[OF yields_readSlice[of c 1], of le_int] by (simp add: readUInt8_def[abs_def])

lemma yields_UInt16: "length c = 2 \<Longrightarrow> yields readUInt16 c (le_int c)"
  using yields_map[OF yields_readSlice[of c 2], of le_int] by (simp add: readUInt16_def[abs_def])

lemma yields_UInt32: "length c = 4 \<Longrightarrow> yields readUInt32 c (le_int c)"
  using yields_map[OF yields_readSlice[of c 4], of le_int] by (simp add: readUInt32_def[abs_def])

lemma yields_UInt64: "length c = 8 \<Longrightarrow> yields readUInt64 c (le_int c)"
  using yields_map[OF yields_readSlice[of c 8], of le_int] by (simp add: readUInt64_def[abs_def])

lemma yields_Int32: "length c = 4 \<Longrightarrow> yields readInt32 c (toSigned32 (le_int c))"
  using yields_map[OF yields_readSlice[of c 4], of "\<lambda>s. toSigned32 (le_int s)"]
  by (simp add: readInt32_def[abs_def] toSigned32_def)

lemma parses_UInt8: "parses readUInt8 (\<lambda>c v. length c = 1 \<and> v = le_int c)"
  by (rule parses_weaken[OF parses_map[OF parses_readSlice[of 1], of le_int, folded readUInt8_def[abs_def]]]) auto

lemma parses_UInt16: "parses readUInt16 (\<lambda>c v. length c = 2 \<and> v = le_int c)"
  by (rule parses_weaken[OF parses_map[OF parses_readSlice[of 2], of le_int, folded readUInt16_def[abs_def]]]) auto

lemma parses_UInt32: "parses readUInt32 (\<lambda>c v. length c = 4 \<and> v = le_int c)"
  by (rule parses_weaken[OF parses_map[OF parses_readSlice[of 4], of le_int, folded readUInt32_def[abs_def]]]) auto

lemma parses_UInt64: "parses readUInt64 (\<lambda>c v. length c = 8 \<and> v = le_int c)"
  by (rule parses_weaken[OF parses_map[OF parses_readSlice[of 8], of le_int, folded readUInt64_def[abs_def]]]) auto

lemma parses_Int32: "parses readInt32 (\<lambda>c v. length c = 4 \<and> v = toSigned32 (le_int c))"
proof -
  have "readInt32 = (\<lambda>r. ebind (readSlice 4 r) (\<lambda>(x, r'). Inr (toSigned32 (le_int x), r')))"
    by (rule ext) (simp add: readInt32_def toSigned32_def)
  then show ?thesis
    using parses_weaken[OF parses_map[OF parses_readSlice[of 4], of "\<lambda>s. toSigned32 (le_int s)"],
        of "\<lambda>c v. length c = 4 \<and> v = toSigned32 (le_int c)"]
    by auto
qed

definition varint_tail :: "int \<Rightarrow> cursor \<Rightarrow> error + (nat \<times> cursor)" where
  "varint_tail first r1 =
    (if first < 0xfd then Inr (nat first, r1)
     else if first = 0xfd then ebind (readUInt16 r1) (\<lambda>(v, r2). Inr (nat v, r2))
     else if first = 0xfe then ebind (readUInt32 r1) (\<lambda>(v, r2). Inr (nat v, r2))
     else ebind (readUInt64 r1) (\<lambda>(v, r2). Inr (nat v, r2)))"

lemma readVarInt_tail: "readVarInt = (\<lambda>r. ebind (readUInt8 r) (\<lambda>(first, r1). varint_tail first r1))"
  by (rule ext) (simp add: readVarInt_def varint_tail_def)

lemma le1: "length c = 1 \<Longrightarrow> c = [word_of_int (le_int c)]"
proof -
  assume l: "length c = 1"
  have "le_int c mod 256 = le_int c" using le_int_bounds[of c] l by simp
  then show ?thesis using le_bytes_le_int[of c] l by simp
qed

lemma yields_VarInt:
  assumes "varint_ok n"
  shows "yields readVarInt (encode n) n"
proof -
  consider (a) "n < 0xfd" | (b) "0xfd \<le> n" "n \<le> 0xffff" | (c) "0xffff < n" "n \<le> 0xffffffff"
    | (d) "0xffffffff < n" by linarith
  then show ?thesis
  proof cases
    case a
    have e: "encode n = le_bytes 1 (int n)" using a by (simp add: encode_def)
    have v: "le_int (le_bytes 1 (int n)) = int n" unfolding le_int_le_bytes using a by simp
    have 1: "yields readUInt8 (le_bytes 1 (int n)) (int n)"
      using yields_UInt8[of "le_bytes 1 (int n)"] v by simp
    have 2: "yields (varint_tail (int n)) [] n"
      using a yields_return[of n] by (simp add: varint_tail_def[abs_def])
    show ?thesis using yields_bind[of readUInt8 "le_bytes 1 (int n)" "int n" varint_tail "[]" n, OF 1 2]
      by (simp add: e readVarInt_tail)
  next
    case b
    have e: "encode n = [0xfd] @ le_bytes 2 (int n)" using b by (simp add: encode_def)
    have v: "le_int (le_bytes 2 (int n)) = int n" unfolding le_int_le_bytes using b by simp
    have 1: "yields readUInt8 [0xfd] 0xfd"
      using yields_UInt8[of "[0xfd]"] by simp
    have "yields (\<lambda>r. ebind (readUInt16 r) (\<lambda>(v, r2). Inr (nat v, r2))) (le_bytes 2 (int n)) (nat (int n))"
      using yields_map[OF yields_UInt16[of "le_bytes 2 (int n)"], of nat] v by simp
    then have 2: "yields (varint_tail 0xfd) (le_bytes 2 (int n)) n"
      by (simp add: varint_tail_def[abs_def])
    show ?thesis using yields_bind[of readUInt8 "[0xfd]" "0xfd" varint_tail "le_bytes 2 (int n)" n, OF 1 2]
      by (simp add: e readVarInt_tail)
  next
    case c
    have e: "encode n = [0xfe] @ le_bytes 4 (int n)" using c by (simp add: encode_def)
    have v: "le_int (le_bytes 4 (int n)) = int n" unfolding le_int_le_bytes using c by simp
    have 1: "yields readUInt8 [0xfe] 0xfe"
      using yields_UInt8[of "[0xfe]"] by simp
    have "yields (\<lambda>r. ebind (readUInt32 r) (\<lambda>(v, r2). Inr (nat v, r2))) (le_bytes 4 (int n)) (nat (int n))"
      using yields_map[OF yields_UInt32[of "le_bytes 4 (int n)"], of nat] v by simp
    then have 2: "yields (varint_tail 0xfe) (le_bytes 4 (int n)) n"
      by (simp add: varint_tail_def[abs_def])
    show ?thesis using yields_bind[of readUInt8 "[0xfe]" "0xfe" varint_tail "le_bytes 4 (int n)" n, OF 1 2]
      by (simp add: e readVarInt_tail)
  next
    case d
    have e: "encode n = [0xff] @ le_bytes 8 (int n)" using d by (simp add: encode_def)
    have v: "le_int (le_bytes 8 (int n)) = int n" unfolding le_int_le_bytes using d assms by (simp add: varint_ok_def)
    have 1: "yields readUInt8 [0xff] 0xff"
      using yields_UInt8[of "[0xff]"] by simp
    have "yields (\<lambda>r. ebind (readUInt64 r) (\<lambda>(v, r2). Inr (nat v, r2))) (le_bytes 8 (int n)) (nat (int n))"
      using yields_map[OF yields_UInt64[of "le_bytes 8 (int n)"], of nat] v by simp
    then have 2: "yields (varint_tail 0xff) (le_bytes 8 (int n)) n"
      by (simp add: varint_tail_def[abs_def])
    show ?thesis using yields_bind[of readUInt8 "[0xff]" "0xff" varint_tail "le_bytes 8 (int n)" n, OF 1 2]
      by (simp add: e readVarInt_tail)
  qed
qed

definition varint_tail_rel :: "int \<Rightarrow> Buffer \<Rightarrow> nat \<Rightarrow> bool" where
  "varint_tail_rel first c v =
     (if first < 0xfd then c = [] \<and> v = nat first
      else if first = 0xfd then length c = 2 \<and> v = nat (le_int c)
      else if first = 0xfe then length c = 4 \<and> v = nat (le_int c)
      else length c = 8 \<and> v = nat (le_int c))"

lemma parses_varint_tail: "parses (varint_tail first) (varint_tail_rel first)"
proof -
  have a: "parses (\<lambda>r. Inr (nat first, r)) (\<lambda>c x. c = [] \<and> x = nat first)" by (rule parses_return)
  have b: "parses (\<lambda>r. ebind (readUInt16 r) (\<lambda>(v, r2). Inr (nat v, r2))) (\<lambda>c v. length c = 2 \<and> v = nat (le_int c))"
    by (rule parses_weaken[OF parses_map[OF parses_UInt16, of nat]]) auto
  have c: "parses (\<lambda>r. ebind (readUInt32 r) (\<lambda>(v, r2). Inr (nat v, r2))) (\<lambda>c v. length c = 4 \<and> v = nat (le_int c))"
    by (rule parses_weaken[OF parses_map[OF parses_UInt32, of nat]]) auto
  have d: "parses (\<lambda>r. ebind (readUInt64 r) (\<lambda>(v, r2). Inr (nat v, r2))) (\<lambda>c v. length c = 8 \<and> v = nat (le_int c))"
    by (rule parses_weaken[OF parses_map[OF parses_UInt64, of nat]]) auto
  consider "first < 0xfd" | "\<not> first < 0xfd" "first = 0xfd" | "\<not> first < 0xfd" "first \<noteq> 0xfd" "first = 0xfe"
    | "\<not> first < 0xfd" "first \<noteq> 0xfd" "first \<noteq> 0xfe" by blast
  then show ?thesis
  proof cases
    case 1
    then show ?thesis using a by (simp add: varint_tail_def[abs_def] varint_tail_rel_def[abs_def])
  next
    case 2
    then show ?thesis using b by (simp add: varint_tail_def[abs_def] varint_tail_rel_def[abs_def])
  next
    case 3
    then show ?thesis using c by (simp add: varint_tail_def[abs_def] varint_tail_rel_def[abs_def])
  next
    case 4
    then show ?thesis using d by (simp add: varint_tail_def[abs_def] varint_tail_rel_def[abs_def])
  qed
qed

lemma le_bytes_nat: "0 \<le> v \<Longrightarrow> le_bytes k (int (nat v)) = le_bytes k v"
  by simp

lemma varint_shrinks:
  assumes "length c1 = 1" "varint_tail_rel (le_int c1) c2 n"
  shows "varint_ok n \<and> shrinks (encode n) (c1 @ c2)"
proof -
  let ?f = "le_int c1"
  have fb: "0 \<le> ?f" "?f < 256" using le_int_bounds[of c1] assms(1) by simp_all
  have c1: "c1 = [word_of_int ?f]" using le1[OF assms(1)] .
  consider (a) "?f < 0xfd" | (b) "?f = 0xfd" | (c) "?f = 0xfe" | (d) "?f = 0xff"
    using fb by linarith
  then show ?thesis
  proof cases
    case a
    then have n: "c2 = []" "n = nat ?f" using assms(2) by (simp_all add: varint_tail_rel_def)
    have nl: "n < 0xfd" using a fb n(2) by linarith
    have "int n = ?f" using fb n(2) by simp
    then have "encode n = le_bytes 1 ?f" using nl by (simp add: encode_def)
    also have "\<dots> = c1" using le_bytes_le_int[of c1] assms(1) by simp
    finally have en: "encode n = c1" .
    have "shrinks (encode n) (c1 @ c2)" unfolding en n(1) by simp
    moreover have "varint_ok n" using n a fb by (simp add: varint_ok_def)
    ultimately show ?thesis by simp
  next
    case b
    then have n: "length c2 = 2" "n = nat (le_int c2)" using assms(2) by (simp_all add: varint_tail_rel_def)
    have nb: "0 \<le> le_int c2" "le_int c2 < 65536" using le_int_bounds[of c2] n(1) by simp_all
    have r: "le_bytes 2 (le_int c2) = c2" using le_bytes_le_int[of c2] n(1) by simp
    have "shrinks (encode n) (c1 @ c2)"
    proof (cases "n < 0xfd")
      case True
      then show ?thesis using n(1) assms(1) by (simp add: encode_def shrinks_def)
    next
      case False
      then have "encode n = 0xfd # le_bytes 2 (le_int c2)" using n(2) nb by (simp add: encode_def)
      then show ?thesis using r c1 b by simp
    qed
    then show ?thesis using n nb by (simp add: varint_ok_def)
  next
    case c
    then have n: "length c2 = 4" "n = nat (le_int c2)" using assms(2) by (simp_all add: varint_tail_rel_def)
    have nb: "0 \<le> le_int c2" "le_int c2 < 4294967296" using le_int_bounds[of c2] n(1) by simp_all
    have r: "le_bytes 4 (le_int c2) = c2" using le_bytes_le_int[of c2] n(1) by simp
    have "shrinks (encode n) (c1 @ c2)"
    proof (cases "n \<le> 0xffff")
      case True
      then show ?thesis using n(1) assms(1) by (simp add: encode_def shrinks_def)
    next
      case False
      then have "encode n = 0xfe # le_bytes 4 (le_int c2)" using n(2) nb by (simp add: encode_def)
      then show ?thesis using r c1 c by simp
    qed
    then show ?thesis using n nb by (simp add: varint_ok_def)
  next
    case d
    then have n: "length c2 = 8" "n = nat (le_int c2)" using assms(2) by (simp_all add: varint_tail_rel_def)
    have nb: "0 \<le> le_int c2" "le_int c2 < 18446744073709551616" using le_int_bounds[of c2] n(1) by simp_all
    have r: "le_bytes 8 (le_int c2) = c2" using le_bytes_le_int[of c2] n(1) by simp
    have "shrinks (encode n) (c1 @ c2)"
    proof (cases "n \<le> 0xffffffff")
      case True
      then show ?thesis using n(1) assms(1) by (simp add: encode_def shrinks_def)
    next
      case False
      then have "encode n = 0xff # le_bytes 8 (le_int c2)" using n(2) nb by (simp add: encode_def)
      then show ?thesis using r c1 d by simp
    qed
    then show ?thesis using n nb by (simp add: varint_ok_def)
  qed
qed

lemma parses_VarInt: "parses readVarInt (\<lambda>c n. varint_ok n \<and> shrinks (encode n) c)"
proof -
  have "parses (\<lambda>r. ebind (readUInt8 r) (\<lambda>(first, r1). varint_tail first r1))
          (\<lambda>c v. \<exists>c1 c2 x. c = c1 @ c2 \<and> (length c1 = 1 \<and> x = le_int c1) \<and> varint_tail_rel x c2 v)"
    by (rule parses_bind[OF parses_UInt8 parses_varint_tail])
  then show ?thesis unfolding readVarInt_tail[symmetric]
    by (rule parses_weaken) (use varint_shrinks in blast)
qed

lemma yields_VarSlice: "varint_ok (length s) \<Longrightarrow> yields readVarSlice (encode (length s) @ s) s"
  using yields_bind[of readVarInt "encode (length s)" "length s" readSlice s s]
    yields_VarInt[of "length s"] yields_readSlice[of s "length s"]
  by (simp add: readVarSlice_def[abs_def])

lemma parses_VarSlice:
  "parses readVarSlice (\<lambda>c s. varint_ok (length s) \<and> shrinks (encode (length s) @ s) c)"
proof -
  have "parses (\<lambda>r. ebind (readVarInt r) (\<lambda>(n, r1). readSlice n r1))
     (\<lambda>c v. \<exists>c1 c2 x. c = c1 @ c2 \<and> (varint_ok x \<and> shrinks (encode x) c1) \<and> (v = c2 \<and> length c2 = x))"
    by (rule parses_bind[OF parses_VarInt parses_readSlice])
  then show ?thesis unfolding readVarSlice_def[abs_def, symmetric]
    by (rule parses_weaken) (auto intro: shrinks_append)
qed

lemma readInputs_Suc:
  "readInputs (Suc n) = (\<lambda>r.
     ebind (readSlice 32 r) (\<lambda>(h, r).
     ebind (readUInt32 r) (\<lambda>(i, r).
     ebind (readVarSlice r) (\<lambda>(s, r).
     ebind (readUInt32 r) (\<lambda>(q, r).
     ebind (readInputs n r) (\<lambda>(rest, r).
     Inr (\<lparr>hash = h, index = i, script = s, sequence = q\<rparr> # rest, r)))))))"
  by (rule ext) simp

lemma readOutputs_Suc:
  "readOutputs (Suc n) = (\<lambda>r.
     ebind (readUInt64 r) (\<lambda>(v, r).
     ebind (readVarSlice r) (\<lambda>(s, r).
     ebind (readOutputs n r) (\<lambda>(rest, r).
     Inr (Output s v # rest, r)))))"
  by (rule ext) simp

lemma yields_UInt32': "u32 v \<Longrightarrow> yields readUInt32 (le_bytes 4 v) v"
  using yields_UInt32[of "le_bytes 4 v"] by (simp add: le_int_u32)

lemma yields_UInt64': "u64 v \<Longrightarrow> yields readUInt64 (le_bytes 8 v) v"
  using yields_UInt64[of "le_bytes 8 v"] by (simp add: le_int_u64)

lemma yields_Int32': "i32 v \<Longrightarrow> yields readInt32 (le_bytes 4 v) v"
  using yields_Int32[of "le_bytes 4 v"] by (simp add: toSigned32_i32)

lemma yields_return': "v = v' \<Longrightarrow> yields (\<lambda>r. Inr (v, r)) [] v'"
  by (simp add: yields_return)

lemma yields_Inputs:
  "list_all wf_input is \<Longrightarrow> list_all ok_input is \<Longrightarrow>
   yields (readInputs (length is)) (concat (map wire_input is)) is"
proof (induction "is")
  case Nil
  show ?case using yields_return[of "[]::Input list"] by (simp add: yields_def)
next
  case (Cons i "is")
  then have ih: "yields (readInputs (length is)) (concat (map wire_input is)) is"
    and wf: "length (hash i) = 32"
    and ok: "u32 (index i)" "varint_ok (length (script i))" "u32 (sequence i)"
    by (simp_all add: wf_input_def ok_input_def)
  have "yields (readInputs (Suc (length is)))
     (hash i @ le_bytes 4 (index i) @ (encode (length (script i)) @ script i) @ le_bytes 4 (sequence i)
        @ concat (map wire_input is) @ []) (i # is)"
    unfolding readInputs_Suc
    apply (rule yields_bind)
     apply (rule yields_readSlice[OF wf])
    apply (rule yields_bind)
     apply (rule yields_UInt32'[OF ok(1)])
    apply (rule yields_bind)
     apply (rule yields_VarSlice[OF ok(2)])
    apply (rule yields_bind)
     apply (rule yields_UInt32'[OF ok(3)])
    apply (rule yields_bind)
     apply (rule ih)
    apply (rule yields_return')
    apply simp
    done
  then show ?case
    by (simp only: length_Cons list.map concat.simps wire_input_def[of i] append_assoc append_Nil2)
qed

lemma yields_Outputs:
  "list_all isOutput os \<Longrightarrow> list_all ok_output os \<Longrightarrow>
   yields (readOutputs (length os)) (concat (map wire_output os)) os"
proof (induction os)
  case Nil
  show ?case using yields_return[of "[]::Output list"] by (simp add: yields_def)
next
  case (Cons out os)
  then obtain s v where out: "out = Output s v" by (cases out) auto
  from Cons out have ih: "yields (readOutputs (length os)) (concat (map wire_output os)) os"
    and ok: "u64 v" "varint_ok (length s)"
    by (simp_all add: ok_output_def)
  have "yields (readOutputs (Suc (length os)))
     (le_bytes 8 v @ (encode (length s) @ s) @ concat (map wire_output os) @ []) (Output s v # os)"
    unfolding readOutputs_Suc
    apply (rule yields_bind)
     apply (rule yields_UInt64'[OF ok(1)])
    apply (rule yields_bind)
     apply (rule yields_VarSlice[OF ok(2)])
    apply (rule yields_bind)
     apply (rule ih)
    apply (rule yields_return')
    apply simp
    done
  moreover have "wire_output out = le_bytes 8 v @ (encode (length s) @ s)" by (simp add: wire_output_def out)
  ultimately show ?case
    by (simp only: length_Cons list.map concat.simps append_assoc append_Nil2 out[symmetric])
qed

lemma readTransaction_unfold:
  "readTransaction = (\<lambda>r.
     ebind (readInt32 r) (\<lambda>(v, r).
     ebind (if v \<ge> 2 then readUInt64 r else readUInt32 r) (\<lambda>(t, r).
     ebind (readVarInt r) (\<lambda>(vinLen, r).
     ebind (readInputs vinLen r) (\<lambda>(is, r).
     ebind (readVarInt r) (\<lambda>(voutLen, r).
     ebind (readOutputs voutLen r) (\<lambda>(os, r).
     ebind (readUInt32 r) (\<lambda>(l, r).
     Inr (\<lparr>version = v, time = t, locktime = l, ins = is, outs = os\<rparr>, r)))))))))"
  by (rule ext) (simp add: readTransaction_def)

lemma yields_time:
  "(if v \<ge> 2 then u64 t else u32 t) \<Longrightarrow>
   yields (\<lambda>r. if v \<ge> (2::int) then readUInt64 r else readUInt32 r)
     (if v \<ge> 2 then le_bytes 8 t else le_bytes 4 t) t"
  using yields_UInt64'[of t] yields_UInt32'[of t] by (cases "v \<ge> 2") (simp_all add: yields_def)

lemma yields_Transaction:
  assumes "wf_tx tx" "list_all isOutput (outs tx)" "ok_tx tx"
  shows "yields readTransaction (wire_tx tx) tx"
proof -
  from assms have ok: "i32 (version tx)" "if version tx \<ge> 2 then u64 (time tx) else u32 (time tx)"
     "varint_ok (length (ins tx))" "list_all ok_input (ins tx)"
     "varint_ok (length (outs tx))" "list_all ok_output (outs tx)" "u32 (locktime tx)"
     and wf: "list_all wf_input (ins tx)"
    by (simp_all add: ok_tx_def wf_tx_def)
  have "yields readTransaction (le_bytes 4 (version tx) @
     (if version tx \<ge> 2 then le_bytes 8 (time tx) else le_bytes 4 (time tx)) @
     encode (length (ins tx)) @ concat (map wire_input (ins tx)) @
     encode (length (outs tx)) @ concat (map wire_output (outs tx)) @
     le_bytes 4 (locktime tx) @ []) tx"
    unfolding readTransaction_unfold
    apply (rule yields_bind)
     apply (rule yields_Int32'[OF ok(1)])
    apply (rule yields_bind)
     apply (rule yields_time[OF ok(2)])
    apply (rule yields_bind)
     apply (rule yields_VarInt[OF ok(3)])
    apply (rule yields_bind)
     apply (rule yields_Inputs[OF wf ok(4)])
    apply (rule yields_bind)
     apply (rule yields_VarInt[OF ok(5)])
    apply (rule yields_bind)
     apply (rule yields_Outputs[OF assms(2) ok(6)])
    apply (rule yields_bind)
     apply (rule yields_UInt32'[OF ok(7)])
    apply (rule yields_return')
    apply simp
    done
  then show ?thesis by (simp add: wire_tx_def)
qed

definition inputs_rel :: "nat \<Rightarrow> Buffer \<Rightarrow> Input list \<Rightarrow> bool" where
  "inputs_rel n c is = (length is = n \<and> list_all wf_input is \<and> list_all ok_input is \<and>
     shrinks (concat (map wire_input is)) c)"

definition outputs_rel :: "nat \<Rightarrow> Buffer \<Rightarrow> Output list \<Rightarrow> bool" where
  "outputs_rel n c os = (length os = n \<and> list_all isOutput os \<and> list_all ok_output os \<and>
     shrinks (concat (map wire_output os)) c)"

definition tx_rel :: "Buffer \<Rightarrow> Transaction \<Rightarrow> bool" where
  "tx_rel c tx = (wf_tx tx \<and> list_all isOutput (outs tx) \<and> ok_tx tx \<and> shrinks (wire_tx tx) c)"

lemma le_bytes4_le_int: "length c = 4 \<Longrightarrow> le_bytes 4 (le_int c) = c"
  using le_bytes_le_int[of c] by simp

lemma le_bytes8_le_int: "length c = 8 \<Longrightarrow> le_bytes 8 (le_int c) = c"
  using le_bytes_le_int[of c] by simp

lemma shrinks_input_chain:
  "shrinks vs c1b \<Longrightarrow> shrinks rest c1d \<Longrightarrow>
   shrinks ((c1 @ c1a @ vs @ c1c) @ rest) (c1 @ c1a @ c1b @ c1c @ c1d)"
  by (auto simp: shrinks_def)

lemma shrinks_output_chain:
  "shrinks vs c1a \<Longrightarrow> shrinks rest c1b \<Longrightarrow> shrinks ((c1 @ vs) @ rest) (c1 @ c1a @ c1b)"
  by (auto simp: shrinks_def)

lemma shrinks_tx_chain:
  "shrinks b b' \<Longrightarrow> shrinks c c' \<Longrightarrow> shrinks d d' \<Longrightarrow> shrinks e e' \<Longrightarrow>
   shrinks (a @ t @ b @ c @ d @ e @ l) (a @ t @ b' @ c' @ d' @ e' @ l)"
  by (auto simp: shrinks_def)

lemma isOutput_wf: "list_all isOutput os \<Longrightarrow> list_all wf_output os"
  by (induction os) (auto simp: wf_output_def split: Output.splits)

lemma parses_Inputs: "parses (readInputs n) (inputs_rel n)"
proof (induction n)
  case 0
  have "readInputs 0 = (\<lambda>r. Inr ([], r))" by (rule ext) simp
  moreover have "parses (\<lambda>r. Inr ([]::Input list, r)) (inputs_rel 0)"
    by (rule parses_weaken[OF parses_return]) (simp add: inputs_rel_def)
  ultimately show ?case by simp
next
  case (Suc n)
  show ?case unfolding readInputs_Suc
    apply (rule parses_weaken)
     apply (rule parses_bind)
      apply (rule parses_readSlice)
     apply (rule parses_bind)
      apply (rule parses_UInt32)
     apply (rule parses_bind)
      apply (rule parses_VarSlice)
     apply (rule parses_bind)
      apply (rule parses_UInt32)
     apply (rule parses_bind)
      apply (rule Suc)
     apply (rule parses_return)
    apply (clarsimp simp: inputs_rel_def wf_input_def ok_input_def le4_bounds)
    apply (simp only: wire_input_def Input.simps le_bytes4_le_int)
    apply (erule (1) shrinks_input_chain)
    done
qed

lemma parses_Outputs: "parses (readOutputs n) (outputs_rel n)"
proof (induction n)
  case 0
  have "readOutputs 0 = (\<lambda>r. Inr ([], r))" by (rule ext) simp
  moreover have "parses (\<lambda>r. Inr ([]::Output list, r)) (outputs_rel 0)"
    by (rule parses_weaken[OF parses_return]) (simp add: outputs_rel_def)
  ultimately show ?case by simp
next
  case (Suc n)
  show ?case unfolding readOutputs_Suc
    apply (rule parses_weaken)
     apply (rule parses_bind)
      apply (rule parses_UInt64)
     apply (rule parses_bind)
      apply (rule parses_VarSlice)
     apply (rule parses_bind)
      apply (rule Suc)
     apply (rule parses_return)
    apply (clarsimp simp: outputs_rel_def ok_output_def le8_bounds)
    apply (simp only: wire_output_def Output.simps Output.sel le_bytes8_le_int)
    apply (erule (1) shrinks_output_chain)
    done
qed

lemma parses_time:
  "parses (\<lambda>r. if v \<ge> (2::int) then readUInt64 r else readUInt32 r)
     (\<lambda>c t. (if v \<ge> 2 then u64 t \<and> le_bytes 8 t = c else u32 t \<and> le_bytes 4 t = c))"
proof (cases "v \<ge> 2")
  case True
  have "parses readUInt64 (\<lambda>c t. u64 t \<and> le_bytes 8 t = c)"
    by (rule parses_weaken[OF parses_UInt64]) (simp add: le8_bounds le_bytes8_le_int)
  then show ?thesis using True by simp
next
  case False
  have "parses readUInt32 (\<lambda>c t. u32 t \<and> le_bytes 4 t = c)"
    by (rule parses_weaken[OF parses_UInt32]) (simp add: le4_bounds le_bytes4_le_int)
  then show ?thesis using False by simp
qed

lemma parses_Transaction: "parses readTransaction tx_rel"
  unfolding readTransaction_unfold
  apply (rule parses_weaken)
   apply (rule parses_bind)
    apply (rule parses_Int32)
   apply (rule parses_bind)
    apply (rule parses_time)
   apply (rule parses_bind)
    apply (rule parses_VarInt)
   apply (rule parses_bind)
    apply (rule parses_Inputs)
   apply (rule parses_bind)
    apply (rule parses_VarInt)
   apply (rule parses_bind)
    apply (rule parses_Outputs)
   apply (rule parses_bind)
    apply (rule parses_UInt32)
   apply (rule parses_return)
  apply (clarsimp simp: tx_rel_def wf_tx_def ok_tx_def inputs_rel_def outputs_rel_def le4_bounds
      toSigned32_le isOutput_wf)
  subgoal for c1 c1a t c1b c1c xs c1d c1e c2e os
    using shrinks_tx_chain[of "encode (length xs)" c1b "concat (map wire_input xs)" c1c
        "encode (length os)" c1d "concat (map wire_output os)" c1e c1 c1a c2e]
    by (auto simp: wire_tx_def toSigned32_le le_bytes4_le_int split: if_splits)
  done

definition roundtrips :: "Transaction \<Rightarrow> bool" where
  "roundtrips tx = (wf_tx tx \<and> list_all isOutput (outs tx) \<and> ok_tx tx)"

lemma at_start: "at \<lparr>buffer = b, offset = 0\<rparr> b"
  by (simp add: at_def)

lemma readTransaction_wire:
  assumes "roundtrips tx"
  shows "readTransaction \<lparr>buffer = wire_tx tx @ rest, offset = 0\<rparr>
         = Inr (tx, \<lparr>buffer = wire_tx tx @ rest, offset = length (wire_tx tx)\<rparr>)"
proof -
  have "yields readTransaction (wire_tx tx) tx"
    using assms by (intro yields_Transaction) (simp_all add: roundtrips_def)
  then show ?thesis using at_start[of "wire_tx tx @ rest"] unfolding yields_def
    by (fastforce simp: adv_def)
qed

lemma fromBuffer_wire:
  assumes "roundtrips tx"
  shows "Transaction_fromBuffer (wire_tx tx @ rest) NO_STRICT
         = (if NO_STRICT \<or> rest = [] then Inr tx else Inl UnexpectedData)"
  by (simp add: Transaction_fromBuffer_def readTransaction_wire[OF assms])

lemma parsesD:
  assumes "parses f R" "offset r \<le> length (buffer r)" "f r = Inr (v, r')"
  shows "\<exists>c rest. at r (c @ rest) \<and> r' = adv (length c) r \<and> yields f c v \<and> R c v"
  using assms unfolding parses_def by blast

lemma readTransaction_Inr:
  assumes "readTransaction \<lparr>buffer = b, offset = 0\<rparr> = Inr (tx, r)"
  shows "\<exists>c rest. b = c @ rest \<and> r = \<lparr>buffer = b, offset = length c\<rparr> \<and>
           yields readTransaction c tx \<and> tx_rel c tx"
proof -
  have "offset \<lparr>buffer = b, offset = 0\<rparr> \<le> length (buffer \<lparr>buffer = b, offset = 0\<rparr>)" by simp
  from parsesD[OF parses_Transaction this assms] obtain c rest where
    a: "at \<lparr>buffer = b, offset = 0\<rparr> (c @ rest)" and r: "r = adv (length c) \<lparr>buffer = b, offset = 0\<rparr>"
    and y: "yields readTransaction c tx" and t: "tx_rel c tx"
    by blast
  from a have "b = c @ rest" by (simp add: at_def)
  then show ?thesis using r y t by (auto simp: adv_def)
qed

lemma fromBuffer_modes:
  assumes "readTransaction \<lparr>buffer = b, offset = 0\<rparr> = Inr (tx, r)"
  shows "Transaction_fromBuffer b True = Inr tx"
    and "Transaction_fromBuffer b False = (if offset r = length b then Inr tx else Inl UnexpectedData)"
    and "offset r \<le> length b"
    and "Transaction_fromBuffer (take (offset r) b @ t) True = Inr tx"
    and "Transaction_fromBuffer (take (offset r) b @ t) False = (if t = [] then Inr tx else Inl UnexpectedData)"
proof -
  show "Transaction_fromBuffer b True = Inr tx"
    and "Transaction_fromBuffer b False = (if offset r = length b then Inr tx else Inl UnexpectedData)"
    using assms by (simp_all add: Transaction_fromBuffer_def)
  from readTransaction_Inr[OF assms] obtain c rest where
    b: "b = c @ rest" and r: "r = \<lparr>buffer = b, offset = length c\<rparr>" and y: "yields readTransaction c tx"
    by blast
  show "offset r \<le> length b" using b r by simp
  have tk: "take (offset r) b = c" using b r by simp
  have "readTransaction \<lparr>buffer = c @ t, offset = 0\<rparr> = Inr (tx, adv (length c) \<lparr>buffer = c @ t, offset = 0\<rparr>)"
    using y at_start[of "c @ t"] unfolding yields_def by blast
  then show "Transaction_fromBuffer (take (offset r) b @ t) True = Inr tx"
    and "Transaction_fromBuffer (take (offset r) b @ t) False = (if t = [] then Inr tx else Inl UnexpectedData)"
    by (simp_all add: Transaction_fromBuffer_def tk adv_def)
qed

lemma fromBuffer_strict_Inr:
  assumes "Transaction_fromBuffer b False = Inr tx"
  shows "roundtrips tx" "shrinks (wire_tx tx) b" "serialize tx = Inr (wire_tx tx)"
proof -
  from assms obtain r where p: "readTransaction \<lparr>buffer = b, offset = 0\<rparr> = Inr (tx, r)"
    and o: "offset r = length b"
    by (auto simp: Transaction_fromBuffer_def ebind_Inr_iff split: if_splits)
  from readTransaction_Inr[OF p] o obtain c rest where
    b: "b = c @ rest" "length c = length b" and t: "tx_rel c tx" by auto
  then have "c = b" by simp
  then show "roundtrips tx" "shrinks (wire_tx tx) b" using t by (simp_all add: tx_rel_def roundtrips_def)
  then show "serialize tx = Inr (wire_tx tx)" using serialize_wire[of tx "wire_tx tx"]
    by (simp add: roundtrips_def)
qed

lemma fromBuffer_roundtrip_iff:
  assumes "Transaction_fromBuffer b False = Inr tx"
  shows "serialize tx = Inr b \<longleftrightarrow> Transaction_byteLength tx = length b"
proof -
  note f = fromBuffer_strict_Inr[OF assms]
  have l: "length (wire_tx tx) = Transaction_byteLength tx"
    using f(1) by (simp add: length_wire_tx roundtrips_def)
  show ?thesis
  proof
    assume "serialize tx = Inr b" then show "Transaction_byteLength tx = length b"
      by (rule serialize_length[symmetric])
  next
    assume "Transaction_byteLength tx = length b"
    then have "wire_tx tx = b" using f(2) l by (simp add: shrinks_def)
    then show "serialize tx = Inr b" using f(3) by simp
  qed
qed

section \<open>The block header on the wire\<close>

definition wire_header :: "Block \<Rightarrow> Buffer" where
  "wire_header b = le_bytes 4 (blk_version b) @ opt_bytes (prevHash b) @ opt_bytes (merkleRoot b) @
     le_bytes 4 (timestamp b) @ le_bytes 4 (bits b) @ le_bytes 4 (nonce b)"

definition header_ok :: "Block \<Rightarrow> bool" where
  "header_ok b = (i32 (blk_version b) \<and> prevHash b \<noteq> None \<and> merkleRoot b \<noteq> None \<and>
     u32 (timestamp b) \<and> u32 (bits b) \<and> u32 (nonce b))"

definition header_wf :: "Block \<Rightarrow> bool" where
  "header_wf b = (length (opt_bytes (prevHash b)) = 32 \<and> length (opt_bytes (merkleRoot b)) = 32)"

definition same_header :: "Block \<Rightarrow> Block \<Rightarrow> bool" where
  "same_header b b' = (blk_version b = blk_version b' \<and> prevHash b = prevHash b' \<and>
     merkleRoot b = merkleRoot b' \<and> timestamp b = timestamp b' \<and> bits b = bits b' \<and>
     nonce b = nonce b')"

lemma writes_Header: "writes (writeHeader b) (header_ok b) (wire_header b)"
proof -
  have "writes (\<lambda>w. ebind (writeInt32 (blk_version b) w) (\<lambda>w.
     ebind (writeSliceOpt (prevHash b) w) (\<lambda>w.
     ebind (writeSliceOpt (merkleRoot b) w) (\<lambda>w.
     ebind (writeUInt32 (timestamp b) w) (\<lambda>w.
     ebind (writeUInt32 (bits b) w) (writeUInt32 (nonce b)))))))
     (i32 (blk_version b) \<and> prevHash b \<noteq> None \<and> merkleRoot b \<noteq> None \<and>
      u32 (timestamp b) \<and> u32 (bits b) \<and> u32 (nonce b))
     (le_bytes 4 (blk_version b) @ opt_bytes (prevHash b) @ opt_bytes (merkleRoot b) @
      le_bytes 4 (timestamp b) @ le_bytes 4 (bits b) @ le_bytes 4 (nonce b))"
    by (intro writes_bind writes_Int32 writes_SliceOpt writes_UInt32)
  moreover have "writeHeader b = (\<lambda>w. ebind (writeInt32 (blk_version b) w) (\<lambda>w.
     ebind (writeSliceOpt (prevHash b) w) (\<lambda>w.
     ebind (writeSliceOpt (merkleRoot b) w) (\<lambda>w.
     ebind (writeUInt32 (timestamp b) w) (\<lambda>w.
     ebind (writeUInt32 (bits b) w) (writeUInt32 (nonce b)))))))"
    by (rule ext) (simp add: writeHeader_def)
  ultimately show ?thesis by (simp add: header_ok_def wire_header_def)
qed

lemma length_wire_header: "header_wf b \<Longrightarrow> length (wire_header b) = 80"
  by (simp add: header_wf_def wire_header_def)

lemma Block_toBuffer_headersOnly:
  "Block_toBuffer b True = ebind (writeHeader b \<lparr>buffer = allocUnsafe 80, offset = 0\<rparr>) (\<lambda>w. Inr (buffer w))"
  by (cases "transactions b") (simp_all add: Block_toBuffer_def Block_byteLength_def)

lemma writeHeader_same: "same_header b b' \<Longrightarrow> writeHeader b = writeHeader b'"
  by (rule ext) (simp add: writeHeader_def same_header_def)

lemma Block_toBuffer_same: "same_header b b' \<Longrightarrow> Block_toBuffer b True = Block_toBuffer b' True"
  by (simp add: Block_toBuffer_headersOnly writeHeader_same)

lemma Block_toBuffer_header:
  assumes "header_wf b"
  shows "Block_toBuffer b True = Inr bs \<longleftrightarrow> header_ok b \<and> bs = wire_header b"
proof -
  let ?w = "\<lparr>buffer = allocUnsafe 80, offset = 0\<rparr>"
  have f0: "fits 0 ?w" by (simp add: fits_def)
  have fl: "fits (length (wire_header b)) ?w"
    using assms by (simp add: fits_def length_wire_header allocUnsafe_def)
  have p: "put (wire_header b) ?w = \<lparr>buffer = wire_header b, offset = length (wire_header b)\<rparr>"
    using assms by (intro put_whole) (simp_all add: length_wire_header allocUnsafe_def)
  have "writeHeader b ?w = Inr w' \<longleftrightarrow> header_ok b \<and> w' = \<lparr>buffer = wire_header b, offset = length (wire_header b)\<rparr>" for w'
    using writes_Header[of b] f0 fl p by (simp add: writes_def)
  then show ?thesis
    by (auto simp: Block_toBuffer_headersOnly ebind_Inr_iff)
qed

section \<open>Blocks on the wire\<close>

lemma yieldsD:
  assumes "yields f c v" "at r (c @ rest)"
  shows "f r = Inr (v, adv (length c) r)" "at (adv (length c) r) rest"
  using assms at_adv unfolding yields_def by blast+

definition header_of :: "Buffer \<Rightarrow> Buffer \<Rightarrow> Buffer \<Rightarrow> Buffer \<Rightarrow> Buffer \<Rightarrow> Buffer \<Rightarrow> Block" where
  "header_of c1 c2 c3 c4 c5 c6 =
     \<lparr>blk_version = toSigned32 (le_int c1), prevHash = Some c2, merkleRoot = Some c3,
      timestamp = le_int c4, witnessCommit = None, bits = le_int c5, nonce = le_int c6,
      transactions = None\<rparr>"

lemma Block_fromBuffer_chunks:
  assumes l: "length c1 = 4" "length c2 = 32" "length c3 = 32" "length c4 = 4" "length c5 = 4" "length c6 = 4"
  shows "Block_fromBuffer (c1 @ c2 @ c3 @ c4 @ c5 @ c6 @ rest) =
     (if rest = [] then Inr (header_of c1 c2 c3 c4 c5 c6)
      else ebind (readVarInt \<lparr>buffer = c1 @ c2 @ c3 @ c4 @ c5 @ c6 @ rest, offset = 80\<rparr>) (\<lambda>(nTransactions, r).
           ebind (readTransactions nTransactions r) (\<lambda>(txs, r).
           Inr ((header_of c1 c2 c3 c4 c5 c6)\<lparr>transactions := Some txs\<rparr>))))"
proof -
  let ?b = "c1 @ c2 @ c3 @ c4 @ c5 @ c6 @ rest"
  let ?r0 = "\<lparr>buffer = ?b, offset = 0\<rparr>"
  have a0: "at ?r0 (c1 @ c2 @ c3 @ c4 @ c5 @ c6 @ rest)" by (rule at_start)
  note s1 = yieldsD[OF yields_Int32[OF l(1)] a0]
  note s2 = yieldsD[OF yields_readSlice[OF l(2)] s1(2)]
  note s3 = yieldsD[OF yields_readSlice[OF l(3)] s2(2)]
  note s4 = yieldsD[OF yields_UInt32[OF l(4)] s3(2)]
  note s5 = yieldsD[OF yields_UInt32[OF l(5)] s4(2)]
  note s6 = yieldsD[OF yields_UInt32[OF l(6)] s5(2)]
  have len: "length ?b = 80 + length rest" using l by simp
  have r6: "adv (length c6) (adv (length c5) (adv (length c4) (adv (length c3) (adv (length c2) (adv (length c1) ?r0)))))
       = \<lparr>buffer = ?b, offset = 80\<rparr>"
    using l by (simp add: adv_def)
  have c1: "(length ?b < 80) = False" unfolding len by simp
  have c2: "(length ?b = 80) = (rest = [])" unfolding len by simp
  show ?thesis
    unfolding Block_fromBuffer_def
    by (simp only: c1 c2 if_False s1(1) s2(1) s3(1) s4(1) s5(1) s6(1) r6 ebind.simps prod.case
          Let_def header_of_def)
qed

lemma header_of_props:
  assumes l: "length c1 = 4" "length c2 = 32" "length c3 = 32" "length c4 = 4" "length c5 = 4" "length c6 = 4"
  shows "header_wf (header_of c1 c2 c3 c4 c5 c6)" "header_ok (header_of c1 c2 c3 c4 c5 c6)"
    "wire_header (header_of c1 c2 c3 c4 c5 c6) = c1 @ c2 @ c3 @ c4 @ c5 @ c6"
  using l toSigned32_le[OF l(1)]
  by (simp_all add: header_wf_def header_ok_def wire_header_def header_of_def opt_bytes_def
      le4_bounds le_bytes4_le_int)

lemma drop_split: "drop m xs = take n (drop m xs) @ drop (m + n) xs"
proof -
  have "drop m xs = take n (drop m xs) @ drop n (drop m xs)" by (rule append_take_drop_id[symmetric])
  also have "drop n (drop m xs) = drop (m + n) xs" by (simp add: add.commute)
  finally show ?thesis .
qed

lemma split_header:
  assumes "length hb = 80"
  obtains c1 c2 c3 c4 c5 c6 where "hb = c1 @ c2 @ c3 @ c4 @ c5 @ c6"
    "length c1 = 4" "length c2 = 32" "length c3 = 32" "length c4 = 4" "length c5 = 4" "length c6 = 4"
proof
  let ?c1 = "take 4 hb" let ?c2 = "take 32 (drop 4 hb)" let ?c3 = "take 32 (drop 36 hb)"
  let ?c4 = "take 4 (drop 68 hb)" let ?c5 = "take 4 (drop 72 hb)" let ?c6 = "drop 76 hb"
  show "length ?c1 = 4" "length ?c2 = 32" "length ?c3 = 32" "length ?c4 = 4" "length ?c5 = 4" "length ?c6 = 4"
    using assms by simp_all
  have 1: "hb = ?c1 @ drop 4 hb" by simp
  have 2: "drop 4 hb = ?c2 @ drop 36 hb" using drop_split[of 4 hb 32] by simp
  have 3: "drop 36 hb = ?c3 @ drop 68 hb" using drop_split[of 36 hb 32] by simp
  have 4: "drop 68 hb = ?c4 @ drop 72 hb" using drop_split[of 68 hb 4] by simp
  have 5: "drop 72 hb = ?c5 @ drop 76 hb" using drop_split[of 72 hb 4] by simp
  show "hb = ?c1 @ ?c2 @ ?c3 @ ?c4 @ ?c5 @ ?c6"
    using 1 2 3 4 5 by metis
qed

lemma Block_toBuffer_no_transactions:
  "transactions b = None \<Longrightarrow> Block_toBuffer b headersOnly = Block_toBuffer b True"
  by (simp add: Block_toBuffer_def Block_byteLength_def)

lemma header_roundtrip:
  assumes "length hb = 80"
  shows "\<exists>b. Block_fromBuffer hb = Inr b \<and> transactions b = None \<and> Block_toBuffer b False = Inr hb"
proof -
  from split_header[OF assms] obtain c1 c2 c3 c4 c5 c6 where
    hb: "hb = c1 @ c2 @ c3 @ c4 @ c5 @ c6" and
    l: "length c1 = 4" "length c2 = 32" "length c3 = 32" "length c4 = 4" "length c5 = 4" "length c6 = 4"
    by metis
  let ?b = "header_of c1 c2 c3 c4 c5 c6"
  have p: "Block_fromBuffer hb = Inr ?b"
    using Block_fromBuffer_chunks[OF l, of "[]"] hb by simp
  have t: "transactions ?b = None" by (simp add: header_of_def)
  note h = header_of_props[OF l]
  have "Block_toBuffer ?b True = Inr hb"
    using Block_toBuffer_header[OF h(1), of hb] h(2,3) hb by simp
  then show ?thesis using p t Block_toBuffer_no_transactions[OF t, of False] by auto
qed

definition wire_block :: "Block \<Rightarrow> Buffer" where
  "wire_block b = wire_header b @
     (case transactions b of None \<Rightarrow> [] | Some txs \<Rightarrow> encode (length txs) @ concat (map wire_tx txs))"

definition block_ok :: "Block \<Rightarrow> bool" where
  "block_ok b = (header_wf b \<and> header_ok b \<and> witnessCommit b = None \<and>
     (case transactions b of None \<Rightarrow> True | Some txs \<Rightarrow> varint_ok (length txs) \<and> list_all roundtrips txs))"

lemma ebind_assoc: "ebind (ebind m f) g = ebind m (\<lambda>x. ebind (f x) g)"
  by (cases m) simp_all

lemma writes_writeTx:
  assumes "wf_tx tx"
  shows "writes (writeTx tx) (ok_tx tx) (wire_tx tx)"
  unfolding writes_def
proof (intro allI impI)
  fix w w' assume f0: "fits 0 w"
  have w: "\<lparr>buffer = buffer w, offset = offset w\<rparr> = w" by simp
  have e: "writeTx tx w = ebind (writeTransaction tx w)
      (\<lambda>w1. Inr \<lparr>buffer = buffer w1, offset = offset w + Transaction_byteLength tx\<rparr>)"
    by (cases "writeTransaction tx w") (simp_all add: writeTx_def Transaction_toBuffer_def w)
  have p: "\<lparr>buffer = buffer (put (wire_tx tx) w), offset = offset w + Transaction_byteLength tx\<rparr>
        = put (wire_tx tx) w"
    using length_wire_tx[OF assms] by (simp add: put_def)
  show "writeTx tx w = Inr w' \<longleftrightarrow> ok_tx tx \<and> fits (length (wire_tx tx)) w \<and> w' = put (wire_tx tx) w"
    unfolding e ebind_Inr_iff using writes_Transaction[of tx] f0 p
    by (auto simp: writes_def)
qed

lemma byteLength_sum_list:
  "list_all wf_tx txs \<Longrightarrow>
   foldl (\<lambda>a x. a + Transaction_byteLength x) 0 txs = length (concat (map wire_tx txs))"
proof -
  assume a: "list_all wf_tx txs"
  have "foldl (\<lambda>a x. a + Transaction_byteLength x) 0 txs = (\<Sum>x\<leftarrow>txs. Transaction_byteLength x)"
    using foldl_add_sum[of Transaction_byteLength 0 txs] by simp
  also have "\<dots> = (\<Sum>x\<leftarrow>txs. length (wire_tx x))"
    using a by (intro arg_cong[where f=sum_list] map_cong) (auto simp: list_all_iff length_wire_tx)
  finally show ?thesis by (simp add: length_concat_map)
qed

lemma Block_toBuffer_full:
  assumes "block_ok b" "transactions b = Some txs"
  shows "Block_toBuffer b False = Inr (wire_block b)"
proof -
  from assms have hw: "header_wf b" and ho: "header_ok b" and vo: "varint_ok (length txs)"
    and rt: "list_all roundtrips txs" by (simp_all add: block_ok_def)
  have wf: "list_all wf_tx txs" and ok: "list_all ok_tx txs"
    using rt by (simp_all add: list_all_iff roundtrips_def)
  let ?body = "encode (length txs) @ concat (map wire_tx txs)"
  have wb: "wire_block b = wire_header b @ ?body" using assms(2) by (simp add: wire_block_def)
  have bl: "Block_byteLength b False = length (wire_block b)"
    using assms(2) byteLength_sum_list[OF wf] length_wire_header[OF hw]
    by (simp add: Block_byteLength_def wb length_encode)
  let ?w = "\<lparr>buffer = allocUnsafe (length (wire_block b)), offset = 0\<rparr>"
  have f0: "fits 0 ?w" by (simp add: fits_def)
  have "writes (\<lambda>w. ebind (writeHeader b w) (\<lambda>w. ebind (writeVarInt (length txs) w) (forEach writeTx txs)))
          (header_ok b \<and> varint_ok (length txs) \<and> list_all ok_tx txs)
          (wire_header b @ encode (length txs) @ concat (map wire_tx txs))"
    using wf by (intro writes_bind writes_Header writes_VarInt writes_forEach writes_writeTx)
                (simp add: list_all_iff)
  then have "ebind (writeHeader b ?w) (\<lambda>w. ebind (writeVarInt (length txs) w) (forEach writeTx txs))
       = Inr (put (wire_block b) ?w)"
    using f0 ho vo ok unfolding writes_def wb by (simp add: fits_def allocUnsafe_def)
  moreover have "put (wire_block b) ?w = \<lparr>buffer = wire_block b, offset = length (wire_block b)\<rparr>"
    by (intro put_whole) (simp_all add: allocUnsafe_def)
  moreover have "Block_toBuffer b False =
     ebind (ebind (writeHeader b ?w) (\<lambda>w. ebind (writeVarInt (length txs) w) (forEach writeTx txs)))
       (\<lambda>w. Inr (buffer w))"
    unfolding Block_toBuffer_def bl using assms(2)
    by (simp add: ebind_assoc)
  ultimately show ?thesis by simp
qed

lemma readTransactions_wire:
  assumes "list_all roundtrips txs" "at r (concat (map wire_tx txs) @ rest)"
  shows "readTransactions (length txs) r = Inr (txs, adv (length (concat (map wire_tx txs))) r)"
  using assms
proof (induction txs arbitrary: r)
  case Nil
  then show ?case by simp
next
  case (Cons t ts)
  from Cons.prems have rt: "roundtrips t" and rts: "list_all roundtrips ts"
    and a: "at r (wire_tx t @ (concat (map wire_tx ts) @ rest))" by simp_all
  have d: "drop (offset r) (buffer r) = wire_tx t @ (concat (map wire_tx ts) @ rest)"
    using a by (simp add: at_def)
  have p: "Transaction_fromBuffer (drop (offset r) (buffer r)) True = Inr t"
    unfolding d using fromBuffer_wire[OF rt, of _ True] by simp
  have bl: "Transaction_byteLength t = length (wire_tx t)"
    using rt by (simp add: roundtrips_def length_wire_tx)
  have a': "at (adv (length (wire_tx t)) r) (concat (map wire_tx ts) @ rest)"
    using a by (rule at_adv)
  have r': "r\<lparr>offset := offset r + Transaction_byteLength t\<rparr> = adv (length (wire_tx t)) r"
    by (simp add: adv_def bl)
  show ?case
    using Cons.IH[OF rts a'] p r' by (simp add: adv_adv)
qed

lemma Block_fromBuffer_wire:
  assumes "block_ok b"
  shows "Block_fromBuffer (wire_block b) = Inr b"
proof -
  from assms have hw: "header_wf b" and ho: "header_ok b" and wc: "witnessCommit b = None"
    by (simp_all add: block_ok_def)
  from ho obtain ph mr where ph: "prevHash b = Some ph" and mr: "merkleRoot b = Some mr"
    by (auto simp: header_ok_def)
  let ?c1 = "le_bytes 4 (blk_version b)" let ?c4 = "le_bytes 4 (timestamp b)"
  let ?c5 = "le_bytes 4 (bits b)" let ?c6 = "le_bytes 4 (nonce b)"
  have l: "length ?c1 = 4" "length ph = 32" "length mr = 32" "length ?c4 = 4" "length ?c5 = 4" "length ?c6 = 4"
    using hw ph mr by (simp_all add: header_wf_def opt_bytes_def)
  have wh: "wire_header b = ?c1 @ ph @ mr @ ?c4 @ ?c5 @ ?c6"
    by (simp add: wire_header_def ph mr opt_bytes_def)
  have ho': "i32 (blk_version b)" "u32 (timestamp b)" "u32 (bits b)" "u32 (nonce b)"
    using ho by (simp_all add: header_ok_def)
  have hd: "header_of ?c1 ph mr ?c4 ?c5 ?c6 = b\<lparr>transactions := None\<rparr>"
    using ph mr wc ho' by (simp add: header_of_def toSigned32_i32 le_int_u32)
  show ?thesis
  proof (cases "transactions b")
    case None
    then have "wire_block b = ?c1 @ ph @ mr @ ?c4 @ ?c5 @ ?c6 @ []" by (simp add: wire_block_def wh)
    then show ?thesis using Block_fromBuffer_chunks[OF l, of "[]"] hd None by simp
  next
    case (Some txs)
    from assms Some have vo: "varint_ok (length txs)" and rt: "list_all roundtrips txs"
      by (simp_all add: block_ok_def)
    let ?rest = "encode (length txs) @ concat (map wire_tx txs)"
    let ?buf = "?c1 @ ph @ mr @ ?c4 @ ?c5 @ ?c6 @ ?rest"
    have wb: "wire_block b = ?buf" by (simp add: wire_block_def wh Some)
    have ne: "?rest \<noteq> []" by (simp add: encode_def)
    have a80: "at \<lparr>buffer = ?buf, offset = 80\<rparr> (encode (length txs) @ (concat (map wire_tx txs) @ []))"
      using l by (simp add: at_def)
    note v = yieldsD[OF yields_VarInt[OF vo] a80]
    note t = readTransactions_wire[OF rt v(2)]
    have "Block_fromBuffer ?buf = Inr ((header_of ?c1 ph mr ?c4 ?c5 ?c6)\<lparr>transactions := Some txs\<rparr>)"
      unfolding Block_fromBuffer_chunks[OF l, of ?rest]
      by (simp only: ne if_False v(1) t ebind.simps prod.case)
    then show ?thesis unfolding wb hd using Some by simp
  qed
qed

lemma Block_toBuffer_wire:
  assumes "block_ok b"
  shows "Block_toBuffer b False = Inr (wire_block b)"
proof (cases "transactions b")
  case None
  from assms have hw: "header_wf b" and ho: "header_ok b" by (simp_all add: block_ok_def)
  have "Block_toBuffer b True = Inr (wire_header b)"
    using Block_toBuffer_header[OF hw, of "wire_header b"] ho by simp
  then show ?thesis using Block_toBuffer_no_transactions[OF None, of False] None
    by (simp add: wire_block_def)
next
  case (Some txs)
  then show ?thesis using Block_toBuffer_full[OF assms] by simp
qed

section \<open>Coinbase test, identifier hash, merkle root\<close>

lemma isCoinbaseHash_loop_iff:
  "isCoinbaseHash_loop i b \<longleftrightarrow> (\<forall>j. i \<le> j \<and> j < 32 \<longrightarrow> b ! j = 0)"
proof (induction i b rule: isCoinbaseHash_loop.induct)
  case (1 i b)
  show ?case
  proof (cases "i < 32")
    case False
    then show ?thesis by (subst isCoinbaseHash_loop.simps) auto
  next
    case True
    show ?thesis
    proof (cases "b ! i = 0")
      case False
      then show ?thesis using True by (subst isCoinbaseHash_loop.simps) auto
    next
      case z: True
      have "isCoinbaseHash_loop i b = isCoinbaseHash_loop (i + 1) b"
        using True z by (subst isCoinbaseHash_loop.simps) simp
      also have "\<dots> \<longleftrightarrow> (\<forall>j. i + 1 \<le> j \<and> j < 32 \<longrightarrow> b ! j = 0)"
        using "1.IH"[OF True] z by simp
      also have "\<dots> \<longleftrightarrow> (\<forall>j. i \<le> j \<and> j < 32 \<longrightarrow> b ! j = 0)"
      proof (intro iffI allI impI)
        fix j assume h: "\<forall>j. i + 1 \<le> j \<and> j < 32 \<longrightarrow> b ! j = 0" and j: "i \<le> j \<and> j < 32"
        show "b ! j = 0"
        proof (cases "j = i")
          case True then show ?thesis using z by simp
        next
          case False
          then have "i + 1 \<le> j \<and> j < 32" using j by linarith
          then show ?thesis using h by blast
        qed
      next
        fix j assume h: "\<forall>j. i \<le> j \<and> j < 32 \<longrightarrow> b ! j = 0" and j: "i + 1 \<le> j \<and> j < 32"
        then have "i \<le> j \<and> j < 32" by linarith
        then show "b ! j = 0" using h by blast
      qed
      finally show ?thesis .
    qed
  qed
qed

lemma isCoinbaseHash_iff: "isCoinbaseHash b = Inr True \<longleftrightarrow> b = replicate 32 0"
proof
  assume a: "isCoinbaseHash b = Inr True"
  then have l: "length b = 32"
    by (simp add: isCoinbaseHash_def split: if_splits)
  from a l have "isCoinbaseHash_loop 0 b" by (simp add: isCoinbaseHash_def)
  then have z: "b ! j = 0" if "j < 32" for j
    using that isCoinbaseHash_loop_iff[of 0 b] by blast
  show "b = replicate 32 0"
  proof (rule nth_equalityI)
    show "length b = length (replicate 32 (0::byte))" using l by simp
    fix i assume "i < length b"
    then have "i < 32" using l by simp
    then show "b ! i = replicate 32 0 ! i" using z[of i] by simp
  qed
next
  assume b: "b = replicate 32 0"
  have "b ! j = 0" if "j < 32" for j using b that by simp
  then have "isCoinbaseHash_loop 0 b"
    unfolding isCoinbaseHash_loop_iff by blast
  moreover have "length b = 32" using b by simp
  ultimately show "isCoinbaseHash b = Inr True"
    unfolding isCoinbaseHash_def by simp
qed

lemma isCoinbase_iff: "isCoinbase tx = Inr True \<longleftrightarrow> (\<exists>i. ins tx = [i] \<and> hash i = replicate 32 0)"
proof (cases "ins tx")
  case Nil
  then show ?thesis by (simp add: isCoinbase_def)
next
  case (Cons i rest)
  then show ?thesis by (cases rest) (simp_all add: isCoinbase_def isCoinbaseHash_iff)
qed

lemma getHash_coinbase: "isCoinbase tx = Inr True \<Longrightarrow> Transaction_getHash hash256 tx = Inr (replicate 32 0)"
  by (simp add: Transaction_getHash_def)

lemma getHash_other:
  "isCoinbase tx = Inr False \<Longrightarrow>
   Transaction_getHash hash256 tx = ebind (serialize tx) (\<lambda>bs. Inr (hash256 bs))"
  by (cases "Transaction_toBuffer tx None None") (auto simp: Transaction_getHash_def serialize_def)

definition io_error :: "error \<Rightarrow> bool" where
  "io_error e = (e = OutOfBounds \<or> e = RangeError \<or> e = TypeError)"

definition raises_io :: "(error + 'a) \<Rightarrow> bool" where
  "raises_io m = (\<forall>e. m = Inl e \<longrightarrow> io_error e)"

lemma raises_io_Inr [simp]: "raises_io (Inr x)"
  by (simp add: raises_io_def)

lemma raises_io_Inl [simp]: "raises_io (Inl e) = io_error e"
  by (simp add: raises_io_def)

lemma raises_io_bind: "raises_io m \<Longrightarrow> (\<And>x. raises_io (f x)) \<Longrightarrow> raises_io (ebind m f)"
  by (cases m) (auto simp: raises_io_def)

lemma raises_io_writeSlice: "raises_io (writeSlice s w)"
  by (simp add: writeSlice_def io_error_def)

lemma raises_io_writeInt32: "raises_io (writeInt32 i w)"
  by (simp add: writeInt32_def raises_io_writeSlice io_error_def)

lemma raises_io_writeUInt32: "raises_io (writeUInt32 i w)"
  by (simp add: writeUInt32_def raises_io_writeSlice io_error_def)

lemma raises_io_writeUInt64: "raises_io (writeUInt64 i w)"
  by (simp add: writeUInt64_def raises_io_writeSlice io_error_def)

lemma raises_io_writeVarInt: "raises_io (writeVarInt n w)"
  by (simp add: writeVarInt_def raises_io_writeSlice io_error_def)

lemma raises_io_writeVarSlice: "raises_io (writeVarSlice s w)"
  unfolding writeVarSlice_def by (intro raises_io_bind raises_io_writeVarInt raises_io_writeSlice)

lemma raises_io_forEach: "(\<And>x w. raises_io (f x w)) \<Longrightarrow> raises_io (forEach f xs w)"
  by (induction xs arbitrary: w) (auto intro: raises_io_bind)

lemma raises_io_writeInput: "raises_io (writeInput i w)"
  unfolding writeInput_def
  by (intro raises_io_bind raises_io_writeSlice raises_io_writeUInt32 raises_io_writeVarSlice)

lemma raises_io_writeSliceOpt: "raises_io (writeSliceOpt s w)"
  by (cases s) (simp_all add: writeSliceOpt_def raises_io_writeSlice io_error_def)

lemma raises_io_writeOutput: "raises_io (writeOutput out w)"
  unfolding writeOutput_def
  by (cases "isOutput out")
     (auto intro!: raises_io_bind raises_io_writeSliceOpt raises_io_writeUInt64 raises_io_writeVarSlice)

lemma raises_io_writeTransaction: "raises_io (writeTransaction tx w)"
  unfolding writeTransaction_def
  by (cases "version tx \<ge> 2")
     (auto intro!: raises_io_bind raises_io_writeInt32 raises_io_writeUInt32 raises_io_writeUInt64
        raises_io_writeVarInt raises_io_forEach raises_io_writeInput raises_io_writeOutput)

lemma raises_io_toBuffer: "raises_io (Transaction_toBuffer tx buf off)"
  unfolding Transaction_toBuffer_def Let_def
  by (intro raises_io_bind raises_io_writeTransaction) simp

lemma raises_io_isCoinbase: "raises_io (isCoinbase tx)"
  by (simp add: isCoinbase_def isCoinbaseHash_def io_error_def)

lemma raises_io_getHash: "raises_io (Transaction_getHash hash256 tx)"
  unfolding Transaction_getHash_def
  by (intro raises_io_bind raises_io_isCoinbase) (auto intro!: raises_io_bind raises_io_toBuffer)

lemma raises_io_mapE: "(\<And>x. raises_io (f x)) \<Longrightarrow> raises_io (mapE f xs)"
  by (induction xs) (auto intro!: raises_io_bind)

lemma mapE_length: "mapE f xs = Inr ys \<Longrightarrow> length ys = length xs"
  by (induction xs arbitrary: ys) (auto simp: ebind_Inr_iff)

lemma fastRoot_Some: "xs \<noteq> [] \<Longrightarrow> \<exists>r. fastRoot digestFn xs = Some r"
proof (induction digestFn xs rule: fastRoot.induct)
  case (3 d x y zs)
  have "merkle_level d (x # y # zs) \<noteq> []" by simp
  then show ?case using 3 by simp
qed simp_all

lemma merkle_level_nth:
  "i < (length xs + 1) div 2 \<Longrightarrow>
   merkle_level digestFn xs ! i =
     digestFn (xs ! (2 * i) @ (if 2 * i + 1 < length xs then xs ! (2 * i + 1) else xs ! (2 * i)))"
proof (induction digestFn xs arbitrary: i rule: merkle_level.induct)
  case (3 d x y zs)
  show ?case
  proof (cases i)
    case 0 then show ?thesis by simp
  next
    case (Suc j)
    then have "j < (length zs + 1) div 2" using "3.prems" by simp
    from "3.IH"[OF this] Suc show ?thesis by simp
  qed
qed simp_all

lemma calculateMerkleRoot_nonempty:
  assumes "txs \<noteq> []"
  shows "calculateMerkleRoot hash256 txs =
     ebind (mapE (Transaction_getHash hash256) txs) (\<lambda>hs. Inr (the (fastRoot hash256 hs)))"
proof (cases "mapE (Transaction_getHash hash256) txs")
  case (Inl e)
  then show ?thesis using assms by (simp add: calculateMerkleRoot_def)
next
  case (Inr hs)
  then have "hs \<noteq> []" using mapE_length[OF Inr] assms by auto
  from fastRoot_Some[OF this] obtain r where "fastRoot hash256 hs = Some r" by blast
  then show ?thesis using Inr assms by (simp add: calculateMerkleRoot_def)
qed

lemma calculateMerkleRoot_empty_iff:
  "calculateMerkleRoot hash256 txs = Inl MerkleNoTxes \<longleftrightarrow> txs = []"
proof
  assume a: "calculateMerkleRoot hash256 txs = Inl MerkleNoTxes"
  show "txs = []"
  proof (rule ccontr)
    assume n: "txs \<noteq> []"
    have "raises_io (mapE (Transaction_getHash hash256) txs)"
      by (intro raises_io_mapE raises_io_getHash)
    then have "raises_io (calculateMerkleRoot hash256 txs)"
      unfolding calculateMerkleRoot_nonempty[OF n] by (intro raises_io_bind) simp_all
    then show False using a by (simp add: io_error_def)
  qed
next
  assume "txs = []" then show "calculateMerkleRoot hash256 txs = Inl MerkleNoTxes"
    by (simp add: calculateMerkleRoot_def)
qed

subsection \<open>The signature hash: the transaction that is serialized\<close>







subsection \<open>The builder's legality checks\<close>

lemma canModifyInputs_iff:
  "canModifyInputs b \<longleftrightarrow>
     (\<forall>input \<in> set (INPUTS b). \<forall>s \<in> set (signatures input).
        js_and (sig_hashType s) SIGHASH_ANYONECANPAY \<noteq> 0)"
  by (simp add: canModifyInputs_def list_all_iff)

lemma canModifyOutputs_iff:
  "canModifyOutputs b \<longleftrightarrow>
     (\<forall>vin < length (INPUTS b). \<forall>s \<in> set (signatures (INPUTS b ! vin)).
        js_and (sig_hashType s) 0x1f \<noteq> SIGHASH_ALL \<and>
        \<not> (js_and (sig_hashType s) 0x1f = SIGHASH_SINGLE \<and> length (outs (TX b)) \<le> vin))"
  unfolding canModifyOutputs_def Let_def
  by (simp add: list_all_length Ball_def in_set_conv_nth) blast

lemma addInput_rejected:
  "fst (TransactionBuilder_addInput b h v sq ps) = Inl IllegalMutation \<longleftrightarrow> \<not> canModifyInputs b"
  by (auto simp: TransactionBuilder_addInput_def Transaction_addInput_def Let_def split: sum.splits)

lemma addOutput_rejected:
  "fst (TransactionBuilder_addOutput b s v) = Inl IllegalMutation \<longleftrightarrow> \<not> canModifyOutputs b"
  by (auto simp: TransactionBuilder_addOutput_def Transaction_addOutput_def Let_def split: sum.splits)

lemma addInput_frame:
  "fst (TransactionBuilder_addInput b h v sq ps) = Inl e \<Longrightarrow> snd (TransactionBuilder_addInput b h v sq ps) = b"
  by (auto simp: TransactionBuilder_addInput_def split: sum.splits if_splits)

lemma addOutput_frame:
  "fst (TransactionBuilder_addOutput b s v) = Inl e \<Longrightarrow> snd (TransactionBuilder_addOutput b s v) = b"
  by (auto simp: TransactionBuilder_addOutput_def split: sum.splits if_splits)

lemma addInput_accepted:
  assumes "canModifyInputs b" "length h = 32" "UInt32 v" "case sq of None \<Rightarrow> True | Some q \<Rightarrow> UInt32 q"
  shows "TransactionBuilder_addInput b h v sq ps =
           (Inr (length (ins (TX b))),
            b\<lparr>TX := (TX b)\<lparr>ins := ins (TX b) @ [\<lparr>hash = h, index = v, script = EMPTY_SCRIPT,
                     sequence = (case sq of None \<Rightarrow> 0xffffffff | Some q \<Rightarrow> q)\<rparr>]\<rparr>,
              INPUTS := INPUTS b @ [\<lparr>lockScript = ps, lockValue = None,
                                     redeemScript = None, signatures = []\<rparr>]\<rparr>)"
  using assms
  by (auto simp: TransactionBuilder_addInput_def Transaction_addInput_def Let_def DEFAULT_SEQUENCE_def
      split: option.splits)

lemma addOutput_accepted:
  assumes "canModifyOutputs b" "Satoshi v"
  shows "TransactionBuilder_addOutput b s v =
           (Inr (length (outs (TX b))), b\<lparr>TX := (TX b)\<lparr>outs := outs (TX b) @ [Output s v]\<rparr>\<rparr>)"
  using assms by (simp add: TransactionBuilder_addOutput_def Transaction_addOutput_def)

section \<open>Compact target and proof of work\<close>

lemma toInt32_signed: "toInt32 x = signed_take_bit 31 x"
  by (simp add: toInt32_def signed_take_bit_eq_take_bit_shift take_bit_eq_mod)

lemma signed_take_bit_and_int: "signed_take_bit n (a AND b) = signed_take_bit n a AND signed_take_bit n (b::int)"
  by (rule bit_eqI) (auto simp: bit_simps)

lemma toInt32_js_and: "toInt32 (js_and a b) = js_and a b"
  by (simp add: js_and_def toInt32_signed signed_take_bit_and_int)

lemma toInt32_mask: "toInt32 0xff000000 = - (2 ^ 24)"
  by (simp add: toInt32_def)

lemma and_minus_exp: "drop_bit 24 (x AND - (2 ^ 24)) = drop_bit 24 (x::int)"
proof -
  have "drop_bit 24 (- (2 ^ 24) :: int) = - 1" by (simp add: drop_bit_eq_div)
  then show ?thesis by simp
qed

lemma exponent_eq:
  assumes "u32 bts"
  shows "js_sar (js_and bts 0xff000000) 24 = (if 128 \<le> bts div 2 ^ 24 then bts div 2 ^ 24 - 256 else bts div 2 ^ 24)"
proof -
  have "js_sar (js_and bts 0xff000000) 24 = drop_bit 24 (toInt32 bts AND - (2 ^ 24))"
    unfolding js_sar_def toInt32_js_and by (simp add: js_and_def toInt32_mask)
  also have "\<dots> = drop_bit 24 (toInt32 bts)" by (rule and_minus_exp)
  also have "\<dots> = toInt32 bts div 2 ^ 24" by (simp add: drop_bit_eq_div)
  also have "\<dots> = (if 128 \<le> bts div 2 ^ 24 then bts div 2 ^ 24 - 256 else bts div 2 ^ 24)"
  proof (cases "bts < 2 ^ 31")
    case True
    then have "toInt32 bts = bts" using assms by (simp add: toInt32_def u32_def)
    moreover have "bts div 2 ^ 24 < 128" using True by simp
    ultimately show ?thesis by simp
  next
    case False
    have "(bts - 2147483648 + 4294967296) mod 4294967296 = (bts - 2147483648) mod 4294967296"
      by (rule mod_add_self2)
    also have "\<dots> = bts - 2147483648"
      using False assms by (intro mod_pos_pos_trivial) (simp_all add: u32_def)
    finally have "(bts + 2147483648) mod 4294967296 = bts - 2147483648" by (simp add: add.commute)
    then have t: "toInt32 bts = bts - 4294967296" by (simp add: toInt32_def)
    have "(bts + (- 256) * 16777216) div 16777216 = - 256 + bts div 16777216"
      by (rule div_mult_self1) simp
    then have "(bts - 4294967296) div 16777216 = bts div 16777216 - 256" by simp
    moreover have "128 \<le> bts div 2 ^ 24" using False by simp
    ultimately show ?thesis using t by simp
  qed
  finally show ?thesis .
qed

lemma mantissa_eq: "js_and bts 0x007fffff = bts mod 2 ^ 23"
proof -
  have m: "(0x007fffff :: int) = mask 23" by (simp add: mask_eq_exp_minus_1)
  have "toInt32 0x007fffff = (0x007fffff :: int)" by (simp add: toInt32_def)
  then have "js_and bts 0x007fffff = signed_take_bit 31 bts AND mask 23"
    by (simp add: js_and_def toInt32_signed m del: signed_take_bit_numeral_bit0 signed_take_bit_numeral_bit1)
  also have "\<dots> = take_bit 23 (signed_take_bit 31 bts)" by (simp add: take_bit_eq_mask)
  also have "\<dots> = take_bit 23 bts" by (rule take_bit_signed_take_bit) simp
  finally show ?thesis by (simp add: take_bit_eq_mod)
qed

definition be_int :: "Buffer \<Rightarrow> int" where
  "be_int b = le_int (rev b)"

lemma le_int_append: "le_int (a @ b) = le_int a + 256 ^ length a * le_int b"
  by (induction a) (auto simp: algebra_simps)

lemma be_int_Cons: "be_int (x # xs) = uint x * 256 ^ length xs + be_int xs"
  by (simp add: be_int_def le_int_append)

lemma be_int_bounds: "0 \<le> be_int xs \<and> be_int xs < 256 ^ length xs"
  using le_int_bounds[of "rev xs"] by (simp add: be_int_def)

lemma compare_be_int:
  "length xs = length ys \<Longrightarrow>
   compare xs ys = (if be_int xs < be_int ys then - 1 else if be_int ys < be_int xs then 1 else 0)"
proof (induction xs ys rule: list_induct2)
  case Nil
  show ?case by (simp add: be_int_def)
next
  case (Cons x xs y ys)
  let ?P = "(256::int) ^ length xs"
  have bx: "0 \<le> be_int xs" "be_int xs < ?P" using be_int_bounds[of xs] by simp_all
  have bz: "0 \<le> be_int ys" "be_int ys < ?P" using be_int_bounds[of ys] Cons.hyps by simp_all
  have lt: "uint a * ?P + p < uint c * ?P + q" if "a < c" "0 \<le> p" "p < ?P" "0 \<le> q" for a c :: byte and p q
  proof -
    have "uint a + 1 \<le> uint c" using that(1) by (simp add: word_less_def)
    then have "(uint a + 1) * ?P \<le> uint c * ?P" by (intro mult_right_mono) simp_all
    then show ?thesis using that by (simp add: algebra_simps)
  qed
  consider "x < y" | "y < x" | "x = y" by (metis linorder_less_linear)
  then show ?case
  proof cases
    case 1
    then have "be_int (x # xs) < be_int (y # ys)"
      unfolding be_int_Cons using lt[of x y "be_int xs" "be_int ys"] bx bz Cons.hyps by simp
    then show ?thesis using 1 by simp
  next
    case 2
    then have "be_int (y # ys) < be_int (x # xs)"
      unfolding be_int_Cons using lt[of y x "be_int ys" "be_int xs"] bx bz Cons.hyps by simp
    then show ?thesis using 2 by auto
  next
    case 3
    then show ?thesis using Cons.IH Cons.hyps by (simp add: be_int_Cons)
  qed
qed

lemma compare_le_be_int: "length xs = length ys \<Longrightarrow> compare xs ys \<le> 0 \<longleftrightarrow> be_int xs \<le> be_int ys"
  by (simp add: compare_be_int)

definition target_of :: "int \<Rightarrow> Buffer" where
  "target_of bts = replicate (nat (32 - bts div 2 ^ 24)) 0 @ rev (le_bytes 3 (bts mod 2 ^ 23)) @
     replicate (nat (bts div 2 ^ 24 - 3)) 0"

lemma writeUIntBE_zeros:
  assumes "0 \<le> m" "m < 256 ^ 3"
  shows "writeUIntBE (replicate 32 0) m (32 - e) 3 =
     (if 3 \<le> e \<and> e \<le> 32
      then Inr (replicate (nat (32 - e)) 0 @ rev (le_bytes 3 m) @ replicate (nat (e - 3)) 0)
      else Inl RangeError)"
proof (cases "3 \<le> e \<and> e \<le> 32")
  case True
  from True have e3: "3 \<le> e" "e \<le> 32" by simp_all
  have n: "32 - (nat (32 - e) + 3) = nat (e - 3)" using e3 by linarith
  have "nat (32 - e) \<le> 32" using e3 by linarith
  then have t: "take (nat (32 - e)) (replicate 32 (0::byte)) = replicate (nat (32 - e)) 0"
    by (simp add: min_def)
  have d: "drop (nat (32 - e) + 3) (replicate 32 (0::byte)) = replicate (nat (e - 3)) 0"
    using n by simp
  have "\<not> (32 - e < 0 \<or> int (length (replicate 32 (0::byte))) < 32 - e + int 3)"
    using True by simp
  then show ?thesis using True assms unfolding writeUIntBE_def t d
    by simp
next
  case False
  then have "32 - e < 0 \<or> int (length (replicate 32 (0::byte))) < 32 - e + int 3"
    by auto
  then show ?thesis using False assms unfolding writeUIntBE_def
    by simp
qed

lemma calculateTarget_eq:
  assumes "u32 bts"
  shows "calculateTarget bts =
     (if 3 \<le> bts div 2 ^ 24 \<and> bts div 2 ^ 24 \<le> 32 then Inr (target_of bts) else Inl RangeError)"
proof -
  define e where "e = bts div 2 ^ 24"
  define m where "m = bts mod 2 ^ 23"
  have "0 \<le> bts" "bts < 256 * 2 ^ 24" using assms by (simp_all add: u32_def)
  then have eb: "0 \<le> e" "e < 256"
    by (simp_all add: e_def pos_imp_zdiv_nonneg_iff div_less_iff_less_mult)
  have mb: "0 \<le> m" "m < 256 ^ 3" by (simp_all add: m_def)
  have c: "calculateTarget bts = writeUIntBE (replicate 32 0) m
       (29 - ((if 128 \<le> e then e - 256 else e) - 3)) 3"
    by (simp only: calculateTarget_def Let_def exponent_eq[OF assms] mantissa_eq e_def m_def)
  show ?thesis
  proof (cases "128 \<le> e")
    case False
    then have "29 - ((if 128 \<le> e then e - 256 else e) - 3) = 32 - e" by simp
    then show ?thesis unfolding c using writeUIntBE_zeros[OF mb, of e]
      by (simp add: target_of_def e_def m_def)
  next
    case True
    then have o: "29 - ((if 128 \<le> e then e - 256 else e) - 3) = 32 - (e - 256)" by simp
    have "\<not> (3 \<le> e - 256 \<and> e - 256 \<le> 32)" using eb by simp
    then have "writeUIntBE (replicate 32 0) m (32 - (e - 256)) 3 = Inl RangeError"
      using writeUIntBE_zeros[OF mb, of "e - 256"] by simp
    moreover have "\<not> (3 \<le> e \<and> e \<le> 32)" using True by simp
    ultimately show ?thesis unfolding c o by (simp add: e_def)
  qed
qed

lemma length_target_of: "3 \<le> bts div 2 ^ 24 \<Longrightarrow> bts div 2 ^ 24 \<le> 32 \<Longrightarrow> length (target_of bts) = 32"
  by (simp add: target_of_def)

lemma checkProofOfWork_eq:
  assumes "u32 (bits b)" "Block_getHash hash256 b = Inr h" "length h = 32"
  shows "checkProofOfWork hash256 b =
     (if 3 \<le> bits b div 2 ^ 24 \<and> bits b div 2 ^ 24 \<le> 32
      then Inr (be_int (reverseBuffer h) \<le> be_int (target_of (bits b)))
      else Inl RangeError)"
proof (cases "3 \<le> bits b div 2 ^ 24 \<and> bits b div 2 ^ 24 \<le> 32")
  case True
  then have l: "length (target_of (bits b)) = 32" by (simp add: length_target_of)
  have c: "compare (reverseBuffer h) (target_of (bits b)) \<le> 0
        \<longleftrightarrow> be_int (reverseBuffer h) \<le> be_int (target_of (bits b))"
    by (rule compare_le_be_int) (simp add: l assms(3) reverseBuffer_def)
  have ct: "calculateTarget (bits b) = Inr (target_of (bits b))"
    using True calculateTarget_eq[OF assms(1)] by simp
  have "checkProofOfWork hash256 b = Inr (be_int (reverseBuffer h) \<le> be_int (target_of (bits b)))"
    unfolding checkProofOfWork_def assms(2) ct Let_def by (simp only: ebind.simps c)
  then show ?thesis using True by simp
next
  case False
  have ct: "calculateTarget (bits b) = Inl RangeError"
    using False calculateTarget_eq[OF assms(1)] by simp
  have "checkProofOfWork hash256 b = Inl RangeError"
    unfolding checkProofOfWork_def assms(2) ct Let_def by (simp only: ebind.simps)
  then show ?thesis using False by simp
qed

lemma be_int_append: "be_int (a @ b) = be_int a * 256 ^ length b + be_int b"
  by (simp add: be_int_def le_int_append)

lemma be_int_Nil [simp]: "be_int [] = 0"
  by (simp add: be_int_def)

lemma be_int_replicate_ff: "be_int (replicate n 0xff) = 256 ^ n - 1"
  by (induction n) (simp_all add: be_int_def le_int_append replicate_append_same[symmetric])

lemma be_int_replicate_0: "be_int (replicate n 0) = 0"
  by (induction n) (simp_all add: be_int_def le_int_append replicate_append_same[symmetric])

section \<open>The repository's test vector\<close>

text \<open>The transaction of \<^verbatim>\<open>ts_src/test.ts\<close>, as bytes and as the value it decodes to.\<close>

definition test_tx :: Transaction where
  "test_tx = \<lparr>version = 2, time = 1645861266, locktime = 0,
     ins = [\<lparr>hash = replicate 32 0, index = 0xffffffff,
             script = [0x03, 0xe4, 0xea, 0x1c, 0x01, 0x43, 0x06, 0x2f, 0x50, 0x32, 0x53, 0x48, 0x2f],
             sequence = 0xffffffff\<rparr>],
     outs = [Output [0x21, 0x02, 0xe2, 0x8d, 0x69, 0xea, 0xe6, 0xb6, 0x42, 0x23, 0xd0, 0x1f, 0x14, 0xf9,
               0x3d, 0x6f, 0x47, 0x19, 0x62, 0xcd, 0x4d, 0x84, 0xdd, 0x88, 0xb9, 0xd7, 0xe4, 0xee, 0x00,
               0xee, 0x30, 0xe7, 0xdc, 0x2d, 0xac] 5154727]\<rparr>"

definition test_tx_bytes :: Buffer where
  "test_tx_bytes = [0x02, 0x00, 0x00, 0x00, 0x92, 0xd9, 0x19, 0x62, 0x00, 0x00, 0x00, 0x00, 0x01, 0x00, 0x00, 0x00, 0x00, 0x00, 0x00, 0x00, 0x00, 0x00, 0x00, 0x00, 0x00, 0x00, 0x00, 0x00, 0x00, 0x00, 0x00, 0x00, 0x00, 0x00, 0x00, 0x00, 0x00, 0x00, 0x00, 0x00, 0x00, 0x00, 0x00, 0x00, 0x00, 0xff, 0xff, 0xff, 0xff, 0x0d, 0x03, 0xe4, 0xea, 0x1c, 0x01, 0x43, 0x06, 0x2f, 0x50, 0x32, 0x53, 0x48, 0x2f, 0xff, 0xff, 0xff, 0xff, 0x01, 0xa7, 0xa7, 0x4e, 0x00, 0x00, 0x00, 0x00, 0x00, 0x23, 0x21, 0x02, 0xe2, 0x8d, 0x69, 0xea, 0xe6, 0xb6, 0x42, 0x23, 0xd0, 0x1f, 0x14, 0xf9, 0x3d, 0x6f, 0x47, 0x19, 0x62, 0xcd, 0x4d, 0x84, 0xdd, 0x88, 0xb9, 0xd7, 0xe4, 0xee, 0x00, 0xee, 0x30, 0xe7, 0xdc, 0x2d, 0xac, 0x00, 0x00, 0x00, 0x00]"

lemma test_tx_wf: "wf_tx test_tx"
  by (simp add: wf_tx_def wf_input_def wf_output_def test_tx_def)

lemma test_tx_ok: "ok_tx test_tx"
  by (simp add: ok_tx_def ok_input_def ok_output_def test_tx_def u32_def u64_def i32_def varint_ok_def)

lemma wire_test_tx: "wire_tx test_tx = test_tx_bytes"
  by (simp add: wire_tx_def wire_input_def wire_output_def test_tx_def test_tx_bytes_def encode_def eval_nat_numeral)

lemma test_tx_roundtrips: "roundtrips test_tx"
  using test_tx_wf test_tx_ok by (simp add: roundtrips_def) (simp add: test_tx_def)

text \<open>A block header for the examples: no transactions attached.\<close>

definition test_block :: Block where
  "test_block = \<lparr>blk_version = 1, prevHash = Some (replicate 32 0), merkleRoot = Some (replicate 32 0),
     timestamp = 1645861266, witnessCommit = None, bits = 0x1d00ffff, nonce = 0, transactions = None\<rparr>"

definition test_header_bytes :: Buffer where
  "test_header_bytes = [1, 0, 0, 0] @ replicate 64 0 @ [0x92, 0xd9, 0x19, 0x62] @ [0xff, 0xff, 0x00, 0x1d] @ [0, 0, 0, 0]"

lemma test_block_header: "header_wf test_block" "header_ok test_block"
  "wire_header test_block = test_header_bytes"
  by (simp_all add: header_wf_def header_ok_def wire_header_def test_block_def opt_bytes_def
      i32_def u32_def test_header_bytes_def eval_nat_numeral replicate_add [symmetric])

text \<open>A transaction with no inputs and no outputs, and a digest function for the examples.\<close>

definition zero_digest :: "Buffer \<Rightarrow> Buffer" where
  "zero_digest x = replicate 32 0"

definition empty_tx :: Transaction where
  "empty_tx = \<lparr>version = 1, time = 0, locktime = 0, ins = [], outs = []\<rparr>"

lemma empty_tx_ok: "wf_tx empty_tx" "ok_tx empty_tx"
  by (simp_all add: wf_tx_def ok_tx_def empty_tx_def i32_def u32_def varint_ok_def)

lemma serialize_empty_tx: "serialize empty_tx = Inr [1, 0, 0, 0, 0, 0, 0, 0, 0, 0, 0, 0, 0, 0]"
  using serialize_wire[OF empty_tx_ok(1), of "wire_tx empty_tx"] empty_tx_ok(2)
  by (simp add: wire_tx_def empty_tx_def encode_def eval_nat_numeral)

lemma test_tx_coinbase: "isCoinbase test_tx = Inr True"
  unfolding isCoinbase_iff by (simp add: test_tx_def)

lemma empty_tx_not_coinbase: "isCoinbase empty_tx = Inr False"
  by (simp add: isCoinbase_def empty_tx_def)

definition ff_digest :: "Buffer \<Rightarrow> Buffer" where
  "ff_digest x = replicate 32 0xff"

lemma test_block_bits:
  "header_wf (test_block\<lparr>bits := x\<rparr>)" "u32 x \<Longrightarrow> header_ok (test_block\<lparr>bits := x\<rparr>)"
  by (simp_all add: header_wf_def header_ok_def test_block_def opt_bytes_def i32_def u32_def)

lemma test_block_getHash:
  assumes "u32 x"
  shows "Block_getHash hash256 (test_block\<lparr>bits := x\<rparr>) = Inr (hash256 (wire_header (test_block\<lparr>bits := x\<rparr>)))"
  using Block_toBuffer_header[OF test_block_bits(1), of x "wire_header (test_block\<lparr>bits := x\<rparr>)"]
    test_block_bits(2)[OF assms]
  by (simp add: Block_getHash_def)

text \<open>An encoding of \<open>empty_tx\<close> whose input count is written in three bytes (\<open>fd 00 00\<close>).\<close>

definition nonminimal_tx_bytes :: Buffer where
  "nonminimal_tx_bytes = [1, 0, 0, 0, 0, 0, 0, 0, 0xfd, 0, 0, 0, 0, 0, 0, 0]"

subsection \<open>A spending transaction and a byte-per-opcode script codec\<close>

text \<open>
  The script module is not part of the sources; \<open>hashForSignature\<close> takes \<open>decompile\<close> and
  \<open>compile\<close> as parameters. The instance below reads every byte as one opcode and rejects the
  script \<open>01\<close>, a push of one byte with no byte to push.
\<close>

definition spend_tx :: Transaction where
  "spend_tx = \<lparr>version = 1, time = 0, locktime = 0,
     ins = [\<lparr>hash = replicate 32 0x11, index = 0, script = [], sequence = 0xffffffff\<rparr>],
     outs = []\<rparr>"






subsection \<open>A builder with one signed input\<close>

definition signed_builder :: "int \<Rightarrow> TransactionBuilder" where
  "signed_builder hashType =
     \<lparr>TX = spend_tx,
      INPUTS = [\<lparr>lockScript = None, lockValue = None, redeemScript = None,
                 signatures = [\<lparr>sig_data = [], sig_hashType = hashType\<rparr>]\<rparr>],
      maximumFeeRate = 2500\<rparr>"

lemma hashType_bits:
  "js_and 0x02 0x1f = SIGHASH_NONE" "js_and 0x02 SIGHASH_ANYONECANPAY = 0"
  "js_and 0x81 0x1f = SIGHASH_ALL" "js_and 0x81 SIGHASH_ANYONECANPAY \<noteq> 0"
  "js_and 0x82 0x1f = SIGHASH_NONE" "js_and 0x82 SIGHASH_ANYONECANPAY \<noteq> 0"
  "js_and 0x03 0x1f = SIGHASH_SINGLE" "js_and 0x03 SIGHASH_ANYONECANPAY = 0"
  by (simp_all add: js_and_def toInt32_def SIGHASH_NONE_def SIGHASH_ALL_def SIGHASH_SINGLE_def
      SIGHASH_ANYONECANPAY_def)

section \<open>Claims\<close>




text \<open>
  C2, as the claim states it, fails: the reader accepts a CompactSize in any of its
  encodings, the writer always emits the shortest. The 16 bytes below are a valid
  encoding (version 1, 32-bit time, no inputs, no outputs, locktime) whose input count 0
  is written as \<open>fd 00 00\<close>; they parse, strictly, to the empty transaction, whose
  serialization has 14 bytes.
\<close>

theorem roundtrip_nonminimal_counterexample:
  "Transaction_fromBuffer nonminimal_tx_bytes False = Inr empty_tx \<and>
   serialize empty_tx \<noteq> Inr nonminimal_tx_bytes"
proof -
  have "Transaction_fromBuffer nonminimal_tx_bytes False = Inr empty_tx"
    by (simp add: Transaction_fromBuffer_def readTransaction_def readInt32_def readUInt32_def
        readVarInt_def readUInt8_def readUInt16_def readSlice_def slice_def
        nonminimal_tx_bytes_def empty_tx_def)
  moreover have "serialize empty_tx \<noteq> Inr nonminimal_tx_bytes"
    by (simp add: serialize_empty_tx nonminimal_tx_bytes_def)
  ultimately show ?thesis by simp
qed

text \<open>
  C2, amended. If a byte sequence parses (strictly) to a transaction, that transaction
  serializes, to a sequence that is no longer than the original and parses to the same
  transaction; the serialization reproduces the original bytes iff the original has
  exactly \<open>byteLength()\<close> bytes, that is iff every CompactSize in it is minimal. The
  serialization of any transaction with 32-byte hashes, plain outputs and fields in
  range parses back to it. Every 80-byte sequence parses to a header-only block that
  serializes to the same 80 bytes. The serialization of any full block with a complete
  header and such transactions parses back to the block.
\<close>

theorem roundtrip_of_canonical_encodings:
  "(Transaction_fromBuffer bs False = Inr tx \<longrightarrow>
      serialize tx = Inr (wire_tx tx) \<and> length (wire_tx tx) \<le> length bs \<and>
      Transaction_fromBuffer (wire_tx tx) False = Inr tx \<and>
      (serialize tx = Inr bs \<longleftrightarrow> Transaction_byteLength tx = length bs)) \<and>
   (roundtrips tx \<longrightarrow>
      serialize tx = Inr (wire_tx tx) \<and> Transaction_fromBuffer (wire_tx tx) False = Inr tx) \<and>
   (length hb = 80 \<longrightarrow> (\<exists>b. Block_fromBuffer hb = Inr b \<and> Block_toBuffer b False = Inr hb)) \<and>
   (block_ok blk \<longrightarrow>
      Block_toBuffer blk False = Inr (wire_block blk) \<and> Block_fromBuffer (wire_block blk) = Inr blk)"
proof -
  have rt: "serialize tx = Inr (wire_tx tx) \<and> Transaction_fromBuffer (wire_tx tx) False = Inr tx"
    if "roundtrips tx" for tx
    using that serialize_wire[of tx "wire_tx tx"] fromBuffer_wire[OF that, of "[]" False]
    by (simp add: roundtrips_def)
  have 1: "serialize tx = Inr (wire_tx tx) \<and> length (wire_tx tx) \<le> length bs \<and>
      Transaction_fromBuffer (wire_tx tx) False = Inr tx \<and>
      (serialize tx = Inr bs \<longleftrightarrow> Transaction_byteLength tx = length bs)"
    if p: "Transaction_fromBuffer bs False = Inr tx"
    using fromBuffer_strict_Inr[OF p] rt[of tx] fromBuffer_roundtrip_iff[OF p]
    by (simp add: shrinks_def)
  show ?thesis
    using 1 rt[of tx] header_roundtrip[of hb] Block_toBuffer_wire[of blk] Block_fromBuffer_wire[of blk]
    by blast
qed

theorem roundtrip_of_canonical_encodings_witness:
  "Transaction_fromBuffer test_tx_bytes False = Inr test_tx \<and>
   serialize test_tx = Inr test_tx_bytes \<and>
   (\<exists>b. Block_fromBuffer test_header_bytes = Inr b \<and> Block_toBuffer b False = Inr test_header_bytes) \<and>
   Block_toBuffer (test_block\<lparr>transactions := Some [test_tx]\<rparr>) False
     = Inr (test_header_bytes @ [1] @ test_tx_bytes) \<and>
   Block_fromBuffer (test_header_bytes @ [1] @ test_tx_bytes)
     = Inr (test_block\<lparr>transactions := Some [test_tx]\<rparr>)"
proof -
  let ?blk = "test_block\<lparr>transactions := Some [test_tx]\<rparr>"
  have bo: "block_ok ?blk"
    using test_block_header(1,2) test_tx_roundtrips
    by (simp add: block_ok_def header_wf_def header_ok_def varint_ok_def) (simp add: test_block_def)
  have wb: "wire_block ?blk = test_header_bytes @ [1] @ test_tx_bytes"
    using test_block_header(3)
    by (simp add: wire_block_def wire_header_def wire_test_tx encode_def) 
  have l: "length test_header_bytes = 80" by (simp add: test_header_bytes_def)
  note w = roundtrip_of_canonical_encodings[of test_tx_bytes test_tx test_header_bytes ?blk]
  from w test_tx_roundtrips have a: "serialize test_tx = Inr test_tx_bytes"
    and b: "Transaction_fromBuffer test_tx_bytes False = Inr test_tx"
    unfolding wire_test_tx by blast+
  from w l have c: "\<exists>b. Block_fromBuffer test_header_bytes = Inr b \<and> Block_toBuffer b False = Inr test_header_bytes"
    by blast
  from w bo have d: "Block_toBuffer ?blk False = Inr (test_header_bytes @ [1] @ test_tx_bytes)"
    and e: "Block_fromBuffer (test_header_bytes @ [1] @ test_tx_bytes) = Inr ?blk"
    unfolding wb by blast+
  show ?thesis using a b c d e by blast
qed




text \<open>
  C4. \<open>calculateMerkleRoot\<close> fails with the "zero transactions" error exactly when the
  list is empty. Otherwise its leaves are the identifier hashes of the transactions, in
  order (the first error among them is the error of the call), and the result is the
  root over them: a list of one node is its own root; a longer list has the root of its
  next level, which has \<open>(n + 1) div 2\<close> nodes, node \<open>i\<close> being the digest of nodes
  \<open>2i\<close> and \<open>2i + 1\<close> concatenated, a last node without partner paired with itself. The
  root of \<open>[A]\<close> is the identifier hash of \<open>A\<close>; the root of \<open>[A, B]\<close> is the digest of
  the two identifier hashes concatenated, which for two transactions that are not
  coinbases is \<open>hash256 (hash256 A || hash256 B)\<close> over their serializations.
\<close>

theorem merkle_root_of_transactions:
  "(calculateMerkleRoot hash256 txs = Inl MerkleNoTxes \<longleftrightarrow> txs = []) \<and>
   (txs \<noteq> [] \<longrightarrow>
      calculateMerkleRoot hash256 txs =
        ebind (mapE (Transaction_getHash hash256) txs) (\<lambda>hs. Inr (the (fastRoot hash256 hs)))) \<and>
   (\<forall>hs. mapE (Transaction_getHash hash256) txs = Inr hs \<longrightarrow>
      length hs = length txs \<and>
      (\<forall>i < length txs. Transaction_getHash hash256 (txs ! i) = Inr (hs ! i))) \<and>
   fastRoot hash256 [a] = Some a \<and>
   fastRoot hash256 [a, b] = Some (hash256 (a @ b)) \<and>
   fastRoot hash256 [a, b, c] = Some (hash256 (hash256 (a @ b) @ hash256 (c @ c))) \<and>
   (\<forall>x y zs. fastRoot hash256 (x # y # zs) = fastRoot hash256 (merkle_level hash256 (x # y # zs))) \<and>
   (\<forall>xs. length (merkle_level hash256 xs) = (length xs + 1) div 2) \<and>
   (\<forall>xs i. i < (length xs + 1) div 2 \<longrightarrow>
      merkle_level hash256 xs ! i =
        hash256 (xs ! (2 * i) @ (if 2 * i + 1 < length xs then xs ! (2 * i + 1) else xs ! (2 * i)))) \<and>
   calculateMerkleRoot hash256 [A] = Transaction_getHash hash256 A \<and>
   calculateMerkleRoot hash256 [A, B] =
     ebind (Transaction_getHash hash256 A) (\<lambda>x.
     ebind (Transaction_getHash hash256 B) (\<lambda>y. Inr (hash256 (x @ y)))) \<and>
   (isCoinbase A = Inr False \<and> isCoinbase B = Inr False \<and> serialize A = Inr sa \<and> serialize B = Inr sb \<longrightarrow>
      calculateMerkleRoot hash256 [A, B] = Inr (hash256 (hash256 sa @ hash256 sb)))"
proof -
  have leaves: "length hs = length txs \<and> (\<forall>i < length txs. Transaction_getHash hash256 (txs ! i) = Inr (hs ! i))"
    if "mapE (Transaction_getHash hash256) txs = Inr hs" for hs
    using that
  proof (induction txs arbitrary: hs)
    case Nil then show ?case by simp
  next
    case (Cons t ts)
    then obtain y ys where y: "Transaction_getHash hash256 t = Inr y"
      and ys: "mapE (Transaction_getHash hash256) ts = Inr ys" and hs: "hs = y # ys"
      by (auto simp: ebind_Inr_iff)
    from Cons.IH[OF ys] y hs show ?case by (auto simp: nth_Cons split: nat.splits)
  qed
  have one: "calculateMerkleRoot hash256 [A] = Transaction_getHash hash256 A"
    by (cases "Transaction_getHash hash256 A") (simp_all add: calculateMerkleRoot_def)
  have two: "calculateMerkleRoot hash256 [A, B] =
     ebind (Transaction_getHash hash256 A) (\<lambda>x.
     ebind (Transaction_getHash hash256 B) (\<lambda>y. Inr (hash256 (x @ y))))"
    by (cases "Transaction_getHash hash256 A"; cases "Transaction_getHash hash256 B")
       (simp_all add: calculateMerkleRoot_def)
  have two': "calculateMerkleRoot hash256 [A, B] = Inr (hash256 (hash256 sa @ hash256 sb))"
    if "isCoinbase A = Inr False" "isCoinbase B = Inr False" "serialize A = Inr sa" "serialize B = Inr sb"
    unfolding two using that by (simp add: getHash_other)
  show ?thesis
    using calculateMerkleRoot_empty_iff[of hash256 txs] calculateMerkleRoot_nonempty[of txs hash256]
      leaves one two two' merkle_level_nth[of _ _ hash256] length_merkle_level[of hash256]
    by (simp only: fastRoot.simps merkle_level.simps) blast
qed

theorem merkle_root_of_transactions_witness:
  "\<forall>hash256. calculateMerkleRoot hash256 [] = Inl MerkleNoTxes \<and>
     calculateMerkleRoot hash256 [test_tx] = Inr (replicate 32 0) \<and>
     calculateMerkleRoot hash256 [empty_tx, empty_tx] =
       Inr (hash256 (hash256 [1, 0, 0, 0, 0, 0, 0, 0, 0, 0, 0, 0, 0, 0] @
                     hash256 [1, 0, 0, 0, 0, 0, 0, 0, 0, 0, 0, 0, 0, 0]))"
proof
  fix hash256
  have a: "calculateMerkleRoot hash256 [] = Inl MerkleNoTxes"
    using merkle_root_of_transactions[of hash256 "[]"] by blast
  have "calculateMerkleRoot hash256 [test_tx] = Transaction_getHash hash256 test_tx"
    using merkle_root_of_transactions[of hash256 _ _ _ _ test_tx] by blast
  then have b: "calculateMerkleRoot hash256 [test_tx] = Inr (replicate 32 0)"
    using getHash_coinbase[OF test_tx_coinbase] by simp
  have c: "calculateMerkleRoot hash256 [empty_tx, empty_tx] =
       Inr (hash256 (hash256 [1, 0, 0, 0, 0, 0, 0, 0, 0, 0, 0, 0, 0, 0] @
                     hash256 [1, 0, 0, 0, 0, 0, 0, 0, 0, 0, 0, 0, 0, 0]))"
    using merkle_root_of_transactions[of hash256 _ _ _ _ empty_tx empty_tx
        "[1, 0, 0, 0, 0, 0, 0, 0, 0, 0, 0, 0, 0, 0]" "[1, 0, 0, 0, 0, 0, 0, 0, 0, 0, 0, 0, 0, 0]"]
      empty_tx_not_coinbase serialize_empty_tx by blast
  show "calculateMerkleRoot hash256 [] = Inl MerkleNoTxes \<and>
     calculateMerkleRoot hash256 [test_tx] = Inr (replicate 32 0) \<and>
     calculateMerkleRoot hash256 [empty_tx, empty_tx] =
       Inr (hash256 (hash256 [1, 0, 0, 0, 0, 0, 0, 0, 0, 0, 0, 0, 0, 0] @
                     hash256 [1, 0, 0, 0, 0, 0, 0, 0, 0, 0, 0, 0, 0, 0]))"
    using a b c by simp
qed

text \<open>
  C5, as the claim states it, fails for blocks whose \<open>bits\<close> has an exponent byte outside
  3..32: the write of the mantissa is then out of the 32-byte buffer, \<open>calculateTarget\<close>
  raises a range error, and so does \<open>checkProofOfWork\<close>, whatever the hash (here a block
  whose hash is all zero, with exponent 33 and with \<open>bits = 0\<close>, the value of a new block).
\<close>

theorem proof_of_work_check_counterexample:
  "calculateTarget 0x21000001 = Inl RangeError \<and>
   checkProofOfWork zero_digest (test_block\<lparr>bits := 0x21000001\<rparr>) = Inl RangeError \<and>
   calculateTarget 0 = Inl RangeError \<and>
   checkProofOfWork zero_digest (test_block\<lparr>bits := 0\<rparr>) = Inl RangeError"
proof -
  have u: "u32 0x21000001" "u32 0" by (simp_all add: u32_def)
  have a: "calculateTarget 0x21000001 = Inl RangeError" using calculateTarget_eq[OF u(1)] by simp
  have b: "calculateTarget 0 = Inl RangeError" using calculateTarget_eq[OF u(2)] by simp
  show ?thesis using a b test_block_getHash[OF u(1), of zero_digest] test_block_getHash[OF u(2), of zero_digest]
    by (simp add: checkProofOfWork_def)
qed

text \<open>
  C5, amended. For a block whose \<open>bits\<close> is an unsigned 32-bit number and whose header
  hashes to a 32-byte digest: when the exponent (top byte of \<open>bits\<close>) is between 3 and 32,
  \<open>calculateTarget\<close> is the 32-byte buffer that is zero but for the 3-byte big-endian
  mantissa (low 23 bits of \<open>bits\<close>) at offset \<open>29 - (exponent - 3)\<close>, and
  \<open>checkProofOfWork\<close> is true iff the reversed hash, read as a big-endian number, is at
  most the target read the same way; for any other exponent both raise a range error.
\<close>

theorem proof_of_work_check:
  assumes "u32 (bits b)" "Block_getHash hash256 b = Inr h" "length h = 32"
  shows "(3 \<le> bits b div 2 ^ 24 \<and> bits b div 2 ^ 24 \<le> 32 \<longrightarrow>
            calculateTarget (bits b) =
              Inr (replicate (nat (29 - (bits b div 2 ^ 24 - 3))) 0 @
                   rev (le_bytes 3 (bits b mod 2 ^ 23)) @
                   replicate (nat (bits b div 2 ^ 24 - 3)) 0) \<and>
            checkProofOfWork hash256 b =
              Inr (be_int (reverseBuffer h) \<le>
                   be_int (replicate (nat (29 - (bits b div 2 ^ 24 - 3))) 0 @
                           rev (le_bytes 3 (bits b mod 2 ^ 23)) @
                           replicate (nat (bits b div 2 ^ 24 - 3)) 0))) \<and>
         (\<not> (3 \<le> bits b div 2 ^ 24 \<and> bits b div 2 ^ 24 \<le> 32) \<longrightarrow>
            calculateTarget (bits b) = Inl RangeError \<and>
            checkProofOfWork hash256 b = Inl RangeError)"
proof -
  have "nat (29 - (bits b div 2 ^ 24 - 3)) = nat (32 - bits b div 2 ^ 24)" by simp
  then show ?thesis
    using calculateTarget_eq[OF assms(1)] checkProofOfWork_eq[OF assms] length_target_of[of "bits b"]
    by (auto simp: target_of_def)
qed

theorem proof_of_work_check_witness:
  "calculateTarget 0x1d00ffff = Inr (replicate 3 0 @ [0x00, 0xff, 0xff] @ replicate 26 0) \<and>
   checkProofOfWork zero_digest test_block = Inr True \<and>
   checkProofOfWork ff_digest test_block = Inr False"
proof -
  have u: "u32 (bits test_block)" and bt: "bits test_block = 0x1d00ffff"
    by (simp_all add: u32_def test_block_def)
  have tb: "test_block\<lparr>bits := 0x1d00ffff\<rparr> = test_block" by (simp add: test_block_def)
  have gz: "Block_getHash zero_digest test_block = Inr (replicate 32 0)"
    using test_block_getHash[of "0x1d00ffff" zero_digest] by (simp add: tb u32_def zero_digest_def)
  have gf: "Block_getHash ff_digest test_block = Inr (replicate 32 0xff)"
    using test_block_getHash[of "0x1d00ffff" ff_digest] by (simp add: tb u32_def ff_digest_def)
  have e: "(0x1d00ffff::int) div 2 ^ 24 = 29" "(0x1d00ffff::int) mod 2 ^ 23 = 0xffff" by simp_all
  have lb: "rev (le_bytes 3 0xffff) = [0x00, 0xff, 0xff]" by (simp add: eval_nat_numeral)
  have n: "nat (29 - (29 - 3)) = 3" "nat (29 - 3) = 26" by simp_all
  have p: "3 \<le> (29::int) \<and> (29::int) \<le> 32" by simp
  have lz: "length (replicate 32 (0::byte)) = 32" "length (replicate 32 (0xff::byte)) = 32" by simp_all
  note wz = proof_of_work_check[OF u gz lz(1), unfolded bt e lb n, THEN conjunct1, THEN mp, OF p]
  note wf = proof_of_work_check[OF u gf lz(2), unfolded bt e lb n, THEN conjunct1, THEN mp, OF p]
  have t: "calculateTarget 0x1d00ffff = Inr (replicate 3 0 @ [0x00, 0xff, 0xff] @ replicate 26 0)"
    using wz by (rule conjunct1)
  have bt': "be_int (replicate 3 0 @ [0x00, 0xff, 0xff] @ replicate 26 0) = 0xffff * 256 ^ 26"
    by (simp add: be_int_append be_int_replicate_0 be_int_Cons)
  have bz: "be_int (reverseBuffer (replicate 32 0)) = 0"
    by (simp add: reverseBuffer_def be_int_replicate_0)
  have bf: "be_int (reverseBuffer (replicate 32 0xff)) = 256 ^ 32 - 1"
    by (simp add: reverseBuffer_def be_int_replicate_ff)
  have z: "checkProofOfWork zero_digest test_block = Inr True"
    using wz[THEN conjunct2] unfolding bt' bz by simp
  have f: "checkProofOfWork ff_digest test_block = Inr False"
    using wf[THEN conjunct2] unfolding bt' bf by simp
  show ?thesis using t z f by (simp only: simp_thms)
qed

text \<open>
  C6. For every transaction, also with no inputs or no outputs, \<open>byteLength()\<close> is
  16 (version at least 2) or 12, plus the CompactSize lengths of the two counts, plus
  40 and the length-prefixed script per input, plus 8 and the length-prefixed script per
  output; and it is the exact length of what \<open>serialize()\<close> returns. When every
  input hash has 32 bytes and every field is in the range of its width, serialization
  succeeds and returns the wire format, of exactly that length.
\<close>

theorem byteLength_is_serialized_length:
  "Transaction_byteLength tx =
     (if version tx \<ge> 2 then 16 else 12) +
     encodingLength (length (ins tx)) + encodingLength (length (outs tx)) +
     (\<Sum>i\<leftarrow>ins tx. 40 + (encodingLength (length (script i)) + length (script i))) +
     (\<Sum>out\<leftarrow>outs tx. 8 + (encodingLength (length (out_script out)) + length (out_script out)))
   \<and> (\<forall>bs. serialize tx = Inr bs \<longrightarrow> length bs = Transaction_byteLength tx)
   \<and> (wf_tx tx \<and> ok_tx tx \<longrightarrow>
        serialize tx = Inr (wire_tx tx) \<and> length (wire_tx tx) = Transaction_byteLength tx)"
  using byteLength_sum[of tx] serialize_length[of tx] serialize_wire[of tx "wire_tx tx"] length_wire_tx[of tx]
  by blast

theorem byteLength_is_serialized_length_witness:
  "wf_tx test_tx \<and> ok_tx test_tx \<and> serialize test_tx = Inr test_tx_bytes \<and>
   length test_tx_bytes = Transaction_byteLength test_tx \<and> Transaction_byteLength test_tx = 116"
proof -
  have s: "serialize test_tx = Inr (wire_tx test_tx)"
    and l: "length (wire_tx test_tx) = Transaction_byteLength test_tx"
    using byteLength_is_serialized_length[of test_tx] test_tx_wf test_tx_ok by blast+
  have n: "length test_tx_bytes = 116" by (simp add: test_tx_bytes_def)
  from s l n show ?thesis unfolding wire_test_tx using test_tx_wf test_tx_ok by metis
qed

text \<open>
  C7, as the claim states it, contradicts itself: a signature of type \<open>NONE\<close> whose
  \<open>hashType\<close> lacks the "any one can pay" bit does block \<open>addInput\<close>, by the claim's own first
  clause. With one input signed under \<open>hashType = 0x02\<close>, \<open>addInput\<close> is rejected.
\<close>

theorem builder_none_blocks_addInput_counterexample:
  "js_and (sig_hashType (hd (signatures (hd (INPUTS (signed_builder 0x02)))))) 0x1f = SIGHASH_NONE \<and>
   TransactionBuilder_addInput (signed_builder 0x02) (replicate 32 0x22) 0 None None
     = (Inl IllegalMutation, signed_builder 0x02)"
  by (simp add: TransactionBuilder_addInput_def canModifyInputs_def signed_builder_def hashType_bits)

text \<open>
  C7, amended. \<open>addInput\<close> is rejected as an illegal mutation iff some applied signature's
  \<open>hashType\<close> lacks the "any one can pay" bit; when every applied signature carries the bit and
  the arguments are a 32-byte hash, a \<open>UInt32\<close> index and an absent or \<open>UInt32\<close> sequence, it
  appends the input and returns its index. \<open>addOutput\<close> is rejected as an illegal mutation iff
  some applied signature's \<open>hashType & 0x1f\<close> is \<open>ALL\<close>, or is \<open>SINGLE\<close> on an input whose index
  is at or past the number of outputs, which is the position the new output would take;
  otherwise, for a value representable in 64 bits, it appends the output and returns its
  index. Signatures of type \<open>NONE\<close> never block \<open>addOutput\<close>. A call that fails leaves the
  builder as it was.
\<close>

theorem builder_rejects_illegal_mutations:
  "(fst (TransactionBuilder_addInput b txHash vout sq ps) = Inl IllegalMutation \<longleftrightarrow>
      (\<exists>input \<in> set (INPUTS b). \<exists>s \<in> set (signatures input).
         js_and (sig_hashType s) SIGHASH_ANYONECANPAY = 0)) \<and>
   ((\<forall>input \<in> set (INPUTS b). \<forall>s \<in> set (signatures input).
       js_and (sig_hashType s) SIGHASH_ANYONECANPAY \<noteq> 0) \<and>
    length txHash = 32 \<and> UInt32 vout \<and> (\<forall>q. sq = Some q \<longrightarrow> UInt32 q) \<longrightarrow>
      TransactionBuilder_addInput b txHash vout sq ps =
        (Inr (length (ins (TX b))),
         b\<lparr>TX := (TX b)\<lparr>ins := ins (TX b) @ [\<lparr>hash = txHash, index = vout, script = EMPTY_SCRIPT,
                  sequence = (case sq of None \<Rightarrow> 0xffffffff | Some q \<Rightarrow> q)\<rparr>]\<rparr>,
           INPUTS := INPUTS b @ [\<lparr>lockScript = ps, lockValue = None,
                                  redeemScript = None, signatures = []\<rparr>]\<rparr>)) \<and>
   (fst (TransactionBuilder_addOutput b scriptPubKey v) = Inl IllegalMutation \<longleftrightarrow>
      (\<exists>vin < length (INPUTS b). \<exists>s \<in> set (signatures (INPUTS b ! vin)).
         js_and (sig_hashType s) 0x1f = SIGHASH_ALL \<or>
         (js_and (sig_hashType s) 0x1f = SIGHASH_SINGLE \<and> length (outs (TX b)) \<le> vin))) \<and>
   ((\<forall>vin < length (INPUTS b). \<forall>s \<in> set (signatures (INPUTS b ! vin)).
       js_and (sig_hashType s) 0x1f \<noteq> SIGHASH_ALL \<and>
       \<not> (js_and (sig_hashType s) 0x1f = SIGHASH_SINGLE \<and> length (outs (TX b)) \<le> vin)) \<and>
    Satoshi v \<longrightarrow>
      TransactionBuilder_addOutput b scriptPubKey v =
        (Inr (length (outs (TX b))), b\<lparr>TX := (TX b)\<lparr>outs := outs (TX b) @ [Output scriptPubKey v]\<rparr>\<rparr>)) \<and>
   ((\<forall>input \<in> set (INPUTS b). \<forall>s \<in> set (signatures input).
       js_and (sig_hashType s) 0x1f = SIGHASH_NONE) \<longrightarrow>
      fst (TransactionBuilder_addOutput b scriptPubKey v) \<noteq> Inl IllegalMutation) \<and>
   (\<forall>e. fst (TransactionBuilder_addInput b txHash vout sq ps) = Inl e \<longrightarrow>
      snd (TransactionBuilder_addInput b txHash vout sq ps) = b) \<and>
   (\<forall>e. fst (TransactionBuilder_addOutput b scriptPubKey v) = Inl e \<longrightarrow>
      snd (TransactionBuilder_addOutput b scriptPubKey v) = b)"
proof -
  have 1: "fst (TransactionBuilder_addInput b txHash vout sq ps) = Inl IllegalMutation \<longleftrightarrow>
      (\<exists>input \<in> set (INPUTS b). \<exists>s \<in> set (signatures input).
         js_and (sig_hashType s) SIGHASH_ANYONECANPAY = 0)"
    unfolding addInput_rejected canModifyInputs_iff by blast
  have 2: "TransactionBuilder_addInput b txHash vout sq ps =
        (Inr (length (ins (TX b))),
         b\<lparr>TX := (TX b)\<lparr>ins := ins (TX b) @ [\<lparr>hash = txHash, index = vout, script = EMPTY_SCRIPT,
                  sequence = (case sq of None \<Rightarrow> 0xffffffff | Some q \<Rightarrow> q)\<rparr>]\<rparr>,
           INPUTS := INPUTS b @ [\<lparr>lockScript = ps, lockValue = None,
                                  redeemScript = None, signatures = []\<rparr>]\<rparr>)"
    if "\<forall>input \<in> set (INPUTS b). \<forall>s \<in> set (signatures input).
       js_and (sig_hashType s) SIGHASH_ANYONECANPAY \<noteq> 0"
      "length txHash = 32" "UInt32 vout" "\<forall>q. sq = Some q \<longrightarrow> UInt32 q"
  proof (rule addInput_accepted)
    show "canModifyInputs b" using that(1) by (simp add: canModifyInputs_iff)
    show "case sq of None \<Rightarrow> True | Some q \<Rightarrow> UInt32 q" using that(4) by (simp split: option.splits)
  qed (use that in simp_all)
  have 3: "fst (TransactionBuilder_addOutput b scriptPubKey v) = Inl IllegalMutation \<longleftrightarrow>
      (\<exists>vin < length (INPUTS b). \<exists>s \<in> set (signatures (INPUTS b ! vin)).
         js_and (sig_hashType s) 0x1f = SIGHASH_ALL \<or>
         (js_and (sig_hashType s) 0x1f = SIGHASH_SINGLE \<and> length (outs (TX b)) \<le> vin))"
    unfolding addOutput_rejected canModifyOutputs_iff by blast
  have 4: "TransactionBuilder_addOutput b scriptPubKey v =
        (Inr (length (outs (TX b))), b\<lparr>TX := (TX b)\<lparr>outs := outs (TX b) @ [Output scriptPubKey v]\<rparr>\<rparr>)"
    if "\<forall>vin < length (INPUTS b). \<forall>s \<in> set (signatures (INPUTS b ! vin)).
       js_and (sig_hashType s) 0x1f \<noteq> SIGHASH_ALL \<and>
       \<not> (js_and (sig_hashType s) 0x1f = SIGHASH_SINGLE \<and> length (outs (TX b)) \<le> vin)" "Satoshi v"
    by (rule addOutput_accepted) (use that in \<open>simp_all add: canModifyOutputs_iff\<close>)
  have 5: "fst (TransactionBuilder_addOutput b scriptPubKey v) \<noteq> Inl IllegalMutation"
    if "\<forall>input \<in> set (INPUTS b). \<forall>s \<in> set (signatures input).
       js_and (sig_hashType s) 0x1f = SIGHASH_NONE"
  proof -
    have "canModifyOutputs b" unfolding canModifyOutputs_iff
      using that nth_mem[of _ "INPUTS b"]
      by (fastforce simp: SIGHASH_NONE_def SIGHASH_ALL_def SIGHASH_SINGLE_def)
    then show ?thesis by (simp add: addOutput_rejected)
  qed
  show ?thesis using 1 2 3 4 5 addInput_frame addOutput_frame by blast
qed

theorem builder_rejects_illegal_mutations_witness:
  "TransactionBuilder_addInput (signed_builder 0x81) (replicate 32 0x22) 7 None (Some [0x76]) =
     (Inr 1, (signed_builder 0x81)
        \<lparr>TX := spend_tx\<lparr>ins := ins spend_tx @ [\<lparr>hash = replicate 32 0x22, index = 7, script = [],
                            sequence = 0xffffffff\<rparr>]\<rparr>,
         INPUTS := INPUTS (signed_builder 0x81) @ [\<lparr>lockScript = Some [0x76], lockValue = None,
                            redeemScript = None, signatures = []\<rparr>]\<rparr>) \<and>
   TransactionBuilder_addOutput (signed_builder 0x81) [0x76] 5 = (Inl IllegalMutation, signed_builder 0x81) \<and>
   TransactionBuilder_addOutput (signed_builder 0x03) [0x76] 5 = (Inl IllegalMutation, signed_builder 0x03) \<and>
   TransactionBuilder_addOutput (signed_builder 0x82) [0x76] 5 =
     (Inr 0, (signed_builder 0x82)\<lparr>TX := spend_tx\<lparr>outs := [Output [0x76] 5]\<rparr>\<rparr>)"
proof -
  note t = builder_rejects_illegal_mutations
  have sb: "INPUTS (signed_builder h) = [\<lparr>lockScript = None, lockValue = None, redeemScript = None,
                 signatures = [\<lparr>sig_data = [], sig_hashType = h\<rparr>]\<rparr>]" "TX (signed_builder h) = spend_tx" for h
    by (simp_all add: signed_builder_def)
  have sp: "length (ins spend_tx) = 1" "outs spend_tx = []" by (simp_all add: spend_tx_def)
  have a: "TransactionBuilder_addInput (signed_builder 0x81) (replicate 32 0x22) 7 None (Some [0x76]) =
     (Inr 1, (signed_builder 0x81)
        \<lparr>TX := spend_tx\<lparr>ins := ins spend_tx @ [\<lparr>hash = replicate 32 0x22, index = 7, script = [],
                            sequence = 0xffffffff\<rparr>]\<rparr>,
         INPUTS := INPUTS (signed_builder 0x81) @ [\<lparr>lockScript = Some [0x76], lockValue = None,
                            redeemScript = None, signatures = []\<rparr>]\<rparr>)"
    using t[of "signed_builder 0x81" "replicate 32 0x22" 7 None "Some [0x76]", THEN conjunct2, THEN conjunct1]
    by (simp add: sb sp hashType_bits UInt32_def EMPTY_SCRIPT_def)
  have b1: "fst (TransactionBuilder_addOutput (signed_builder 0x81) [0x76] 5) = Inl IllegalMutation"
    using t[of "signed_builder 0x81" _ _ _ _ "[0x76]" 5, THEN conjunct2, THEN conjunct2, THEN conjunct1]
    by (simp add: sb sp hashType_bits)
  have b2: "snd (TransactionBuilder_addOutput (signed_builder 0x81) [0x76] 5) = signed_builder 0x81"
    using t[of "signed_builder 0x81" _ _ _ _ "[0x76]" 5] b1 by blast
  have c1: "fst (TransactionBuilder_addOutput (signed_builder 0x03) [0x76] 5) = Inl IllegalMutation"
    using t[of "signed_builder 0x03" _ _ _ _ "[0x76]" 5, THEN conjunct2, THEN conjunct2, THEN conjunct1]
    by (simp add: sb sp hashType_bits)
  have c2: "snd (TransactionBuilder_addOutput (signed_builder 0x03) [0x76] 5) = signed_builder 0x03"
    using t[of "signed_builder 0x03" _ _ _ _ "[0x76]" 5] c1 by blast
  have d: "TransactionBuilder_addOutput (signed_builder 0x82) [0x76] 5 =
     (Inr 0, (signed_builder 0x82)\<lparr>TX := spend_tx\<lparr>outs := [Output [0x76] 5]\<rparr>\<rparr>)"
    using t[of "signed_builder 0x82" _ _ _ _ "[0x76]" 5, THEN conjunct2, THEN conjunct2, THEN conjunct2, THEN conjunct1]
    by (simp add: sb sp hashType_bits Satoshi_def SIGHASH_NONE_def SIGHASH_ALL_def SIGHASH_SINGLE_def)
  show ?thesis using a b1 b2 c1 c2 d by (simp add: prod_eq_iff)
qed

text \<open>
  C8. Whenever the reads of \<open>fromBuffer\<close> (version, time, inputs, outputs, locktime)
  succeed on a buffer, consuming \<open>offset r\<close> bytes: with the trailing-bytes hint set the
  transaction is returned; without it, the transaction is returned only if the bytes
  consumed are the whole buffer, and the call fails with "Transaction has unexpected
  data" otherwise. The result depends on the consumed bytes only: whatever follows them
  is ignored with the hint, and is an error without it.
\<close>

theorem strict_parse_rejects_unconsumed_bytes:
  assumes "readTransaction \<lparr>buffer = b, offset = 0\<rparr> = Inr (tx, r)"
  shows "Transaction_fromBuffer b True = Inr tx \<and>
         Transaction_fromBuffer b False = (if offset r = length b then Inr tx else Inl UnexpectedData) \<and>
         offset r \<le> length b \<and>
         (\<forall>t. Transaction_fromBuffer (take (offset r) b @ t) True = Inr tx \<and>
              Transaction_fromBuffer (take (offset r) b @ t) False =
                (if t = [] then Inr tx else Inl UnexpectedData))"
  using fromBuffer_modes[OF assms] by simp

theorem strict_parse_rejects_unconsumed_bytes_witness:
  "Transaction_fromBuffer (test_tx_bytes @ [0xde, 0xad]) True = Inr test_tx \<and>
   Transaction_fromBuffer (test_tx_bytes @ [0xde, 0xad]) False = Inl UnexpectedData \<and>
   Transaction_fromBuffer test_tx_bytes False = Inr test_tx"
proof -
  have p: "readTransaction \<lparr>buffer = test_tx_bytes @ [0xde, 0xad], offset = 0\<rparr>
           = Inr (test_tx, \<lparr>buffer = test_tx_bytes @ [0xde, 0xad], offset = length test_tx_bytes\<rparr>)"
    using readTransaction_wire[OF test_tx_roundtrips, of "[0xde, 0xad]"] by (simp add: wire_test_tx)
  note w = strict_parse_rejects_unconsumed_bytes[OF p]
  from w have a: "Transaction_fromBuffer (test_tx_bytes @ [0xde, 0xad]) True = Inr test_tx"
    and b: "Transaction_fromBuffer (test_tx_bytes @ [0xde, 0xad]) False = Inl UnexpectedData"
    by simp_all
  from w have "\<forall>t. Transaction_fromBuffer (test_tx_bytes @ t) False =
                (if t = [] then Inr test_tx else Inl UnexpectedData)" by simp
  then have "Transaction_fromBuffer (test_tx_bytes @ []) False = Inr test_tx" by (simp del: append_Nil2)
  then show ?thesis using a b by simp
qed

text \<open>
  C10. \<open>getHash()\<close> of a block is the double hash of \<open>toBuffer(true)\<close>. For a block
  whose header is complete (both hashes present with 32 bytes, the four numbers in the
  range of their width) that buffer is the 80-byte header: version, prevHash, merkleRoot,
  timestamp, bits, nonce. Any block with the same six header fields has the same
  \<open>getHash()\<close> and \<open>getId()\<close>, whatever its transactions are and whether it has any.
\<close>

theorem block_hash_covers_header_only:
  "Block_getHash hash256 b = ebind (Block_toBuffer b True) (\<lambda>buf. Inr (hash256 buf)) \<and>
   (header_wf b \<and> header_ok b \<longrightarrow>
      Block_toBuffer b True = Inr (wire_header b) \<and> length (wire_header b) = 80 \<and>
      Block_getHash hash256 b = Inr (hash256 (wire_header b)) \<and>
      (\<forall>b'. same_header b b' \<longrightarrow>
         Block_getHash hash256 b' = Block_getHash hash256 b \<and>
         Block_getId hash256 b' = Block_getId hash256 b))"
proof -
  have 1: "Block_getHash hash256 b = ebind (Block_toBuffer b True) (\<lambda>buf. Inr (hash256 buf))"
    by (simp add: Block_getHash_def)
  have 2: "Block_getHash hash256 b' = Block_getHash hash256 b \<and> Block_getId hash256 b' = Block_getId hash256 b"
    if "same_header b b'" for b'
    using Block_toBuffer_same[OF that] by (simp add: Block_getHash_def Block_getId_def)
  have 3: "Block_toBuffer b True = Inr (wire_header b)" if "header_wf b" "header_ok b"
    using Block_toBuffer_header[OF that(1), of "wire_header b"] that(2) by simp
  show ?thesis using 1 2 3 length_wire_header[of b] by (auto simp: Block_getHash_def)
qed

theorem block_hash_covers_header_only_witness:
  "\<forall>hash256. Block_getHash hash256 test_block = Inr (hash256 test_header_bytes) \<and>
     Block_getHash hash256 (test_block\<lparr>transactions := Some [test_tx]\<rparr>) = Inr (hash256 test_header_bytes) \<and>
     Block_getId hash256 (test_block\<lparr>transactions := Some [test_tx]\<rparr>) = Block_getId hash256 test_block \<and>
     length test_header_bytes = 80"
proof
  fix hash256
  have s: "same_header test_block (test_block\<lparr>transactions := Some [test_tx]\<rparr>)"
    by (simp add: same_header_def)
  note w = block_hash_covers_header_only[of hash256 test_block]
  from w test_block_header(1,2)
  have a: "Block_getHash hash256 test_block = Inr (hash256 (wire_header test_block))"
    and l: "length (wire_header test_block) = 80"
    and b: "\<forall>b'. same_header test_block b' \<longrightarrow>
         Block_getHash hash256 b' = Block_getHash hash256 test_block \<and>
         Block_getId hash256 b' = Block_getId hash256 test_block"
    by blast+
  from b s have c: "Block_getHash hash256 (test_block\<lparr>transactions := Some [test_tx]\<rparr>) = Block_getHash hash256 test_block"
    and d: "Block_getId hash256 (test_block\<lparr>transactions := Some [test_tx]\<rparr>) = Block_getId hash256 test_block"
    by blast+
  show "Block_getHash hash256 test_block = Inr (hash256 test_header_bytes) \<and>
     Block_getHash hash256 (test_block\<lparr>transactions := Some [test_tx]\<rparr>) = Inr (hash256 test_header_bytes) \<and>
     Block_getId hash256 (test_block\<lparr>transactions := Some [test_tx]\<rparr>) = Block_getId hash256 test_block \<and>
     length test_header_bytes = 80"
    using a l c d unfolding test_block_header(3) by simp
qed

end

